theory Spec2Isabelle
  imports Main "HOL-Library.Sublist"
begin

section \<open>JavaScript values of the registry records\<close>

text \<open>
  The remote resource is a tabular dataset served as JSON: every cell of a record is a
  primitive (null, a boolean, a number or a string), and reading a property that a record
  does not have gives \<open>undefined\<close>. Numbers are modelled as integers, which is what the
  identifiers and the meal counts of the registry are; \<open>String(n)\<close> of an integer below
  \<open>10^21\<close> in absolute value is its decimal numeral. Strings are byte sequences (UTF-8).
\<close>

datatype jsval = JUndefined | JNull | JBool bool | JNum int | JStr string

fun digit_char :: "nat \<Rightarrow> char" where
  "digit_char n = char_of (48 + n)"

fun string_of_nat :: "nat \<Rightarrow> string" where
  "string_of_nat n =
     (if n < 10 then [digit_char n] else string_of_nat (n div 10) @ [digit_char (n mod 10)])"

declare string_of_nat.simps [simp del]

text \<open>\<open>String(v)\<close>, which is also the conversion of a value to a property key.\<close>

fun js_String :: "jsval \<Rightarrow> string" where
  "js_String JUndefined = ''undefined''"
| "js_String JNull = ''null''"
| "js_String (JBool b) = (if b then ''true'' else ''false'')"
| "js_String (JNum n) = (if n < 0 then ''-'' @ string_of_nat (nat (- n)) else string_of_nat (nat n))"
| "js_String (JStr s) = s"

text \<open>Truthiness, as tested by \<open>!v\<close>, \<open>v && ...\<close> and \<open>v || ...\<close>.\<close>

fun truthy :: "jsval \<Rightarrow> bool" where
  "truthy JUndefined = False"
| "truthy JNull = False"
| "truthy (JBool b) = b"
| "truthy (JNum n) = (n \<noteq> 0)"
| "truthy (JStr s) = (s \<noteq> [])"

text \<open>
  A record (one institution) is a plain object: its own properties, in order.
  \<open>get r f\<close> is the property read \<open>r[f]\<close>.
\<close>

type_synonym jsobject = "(string \<times> jsval) list"

definition get :: "jsobject \<Rightarrow> string \<Rightarrow> jsval" where
  "get r f = (case map_of r f of None \<Rightarrow> JUndefined | Some v \<Rightarrow> v)"

section \<open>Configuration\<close>

definition MAX_PAGES :: nat where
  "MAX_PAGES = 1500"

definition MONITORED_FIELDS :: "string list" where
  "MONITORED_FIELDS =
     [''name'', ''siret'', ''city'', ''department_lib'', ''region_lib'',
      ''line_ministry'', ''sector_list'', ''daily_meal_count'', ''yearly_meal_count'',
      ''production_type'', ''management_type'', ''economic_model'',
      ''active_on_ma_cantine'', ''has_active_manager'']"

text \<open>The French labels; the accented letters are written as their UTF-8 bytes.\<close>

definition FIELD_LABELS :: "(string \<times> string) list" where
  "FIELD_LABELS =
     [(''name'', ''Nom''),
      (''siret'', ''SIRET''),
      (''city'', ''Ville''),
      (''department_lib'', ''D'' @ [char_of (195::nat), char_of (169::nat)] @ ''partement''),
      (''region_lib'', ''R'' @ [char_of (195::nat), char_of (169::nat)] @ ''gion''),
      (''line_ministry'', ''Minist'' @ [char_of (195::nat), char_of (168::nat)] @ ''re de tutelle''),
      (''sector_list'', ''Secteur''),
      (''daily_meal_count'', ''Couverts/jour''),
      (''yearly_meal_count'', ''Couverts/an''),
      (''production_type'', ''Type de production''),
      (''management_type'', ''Type de gestion''),
      (''economic_model'', ''Mod'' @ [char_of (195::nat), char_of (168::nat)] @ ''le ''
          @ [char_of (195::nat), char_of (169::nat)] @ ''conomique''),
      (''active_on_ma_cantine'', ''Actif sur ma-cantine''),
      (''has_active_manager'', ''Gestionnaire actif'')]"

text \<open>\<open>FIELD_LABELS[field] || field\<close>\<close>

definition field_label :: "string \<Rightarrow> string" where
  "field_label field =
     (case map_of FIELD_LABELS field of
        None \<Rightarrow> field
      | Some l \<Rightarrow> if l \<noteq> [] then l else field)"

section \<open>Snapshots\<close>

text \<open>
  A snapshot is the object \<open>{ key: record, ... }\<close> of the state file, represented by its
  own properties in the order in which \<open>Object.keys\<close> enumerates them. A property key is a
  string: \<open>obj[item.id]\<close> converts the identifier with \<open>String\<close>. The object is what
  \<open>JSON.parse\<close> builds (or \<open>{}\<close>): every key of the file is an own property, and its
  prototype is \<open>Object.prototype\<close>.
\<close>

type_synonym snapshot = "(string \<times> jsobject) list"

definition item_id :: "jsobject \<Rightarrow> jsval" where
  "item_id item = get item ''id''"

definition item_key :: "jsobject \<Rightarrow> string" where
  "item_key item = js_String (item_id item)"

text \<open>
  The test \<open>if (item.id)\<close>: a record has an identifier when its \<open>id\<close> is truthy. A
  record whose \<open>id\<close> is absent, \<open>null\<close>, \<open>0\<close>, \<open>false\<close> or the empty string has none.
\<close>

definition has_id :: "jsobject \<Rightarrow> bool" where
  "has_id item = truthy (item_id item)"

text \<open>
  Own-property order of a JavaScript object: the keys that are array indices (canonical
  decimal numerals below \<open>2^32 - 1\<close>) come first, in ascending numeric order, and the
  other keys follow in the order of their first insertion. Assigning to an existing key
  keeps its place.
\<close>

definition index_of_key :: "string \<Rightarrow> nat option" where
  "index_of_key k =
     (if k \<noteq> [] \<and> (\<forall>c \<in> set k. (48::nat) \<le> of_char c \<and> (of_char c :: nat) \<le> 57)
      then (let n = foldl (\<lambda>a c. 10 * a + ((of_char c :: nat) - 48)) (0::nat) k
            in if string_of_nat n = k \<and> int n < 4294967295 then Some n else None)
      else None)"

fun insert_key :: "string \<Rightarrow> 'v \<Rightarrow> (string \<times> 'v) list \<Rightarrow> (string \<times> 'v) list" where
  "insert_key k v [] = [(k, v)]"
| "insert_key k v ((k', v') # rest) =
     (case index_of_key k of
        None \<Rightarrow> (k', v') # insert_key k v rest
      | Some n \<Rightarrow>
          (case index_of_key k' of
             None \<Rightarrow> (k, v) # (k', v') # rest
           | Some n' \<Rightarrow> if n < n' then (k, v) # (k', v') # rest
                        else (k', v') # insert_key k v rest))"

text \<open>The assignment \<open>obj[k] = v\<close>.\<close>

definition obj_set :: "(string \<times> 'v) list \<Rightarrow> string \<Rightarrow> 'v \<Rightarrow> (string \<times> 'v) list" where
  "obj_set obj k v =
     (if k \<in> fst ` set obj then map (\<lambda>(k', v'). if k' = k then (k', v) else (k', v')) obj
      else insert_key k v obj)"

text \<open>
  The code uses plain objects as dictionaries, so a property read also answers for the
  names that a plain object inherits from \<open>Object.prototype\<close>. These are its members.
\<close>

definition PROTO_NAMES :: "string list" where
  "PROTO_NAMES =
     [''constructor'', ''__defineGetter__'', ''__defineSetter__'', ''hasOwnProperty'',
      ''__lookupGetter__'', ''__lookupSetter__'', ''isPrototypeOf'', ''propertyIsEnumerable'',
      ''toString'', ''valueOf'', ''__proto__'', ''toLocaleString'']"

text \<open>
  What an object whose prototype is \<open>Object.prototype\<close> answers for a name that is not
  an own property: \<open>None\<close> is \<open>undefined\<close>. The member \<open>constructor\<close> is the function
  \<open>Object\<close>, the accessor \<open>__proto__\<close> gives \<open>Object.prototype\<close> itself, and every other
  member is a function named like the member. The inherited object is given by the
  properties that the code goes on to read from it, which are the monitored fields: a
  function has a \<open>name\<close> and none of the others, \<open>Object.prototype\<close> has none of them.
\<close>

definition proto_member :: "string \<Rightarrow> jsobject option" where
  "proto_member k =
     (if k = ''constructor'' then Some [(''name'', JStr ''Object'')]
      else if k = ''__proto__'' then Some []
      else if k \<in> set PROTO_NAMES then Some [(''name'', JStr k)]
      else None)"

text \<open>The property read \<open>previousState[k]\<close>.\<close>

definition lookup_previous :: "snapshot \<Rightarrow> string \<Rightarrow> jsobject option" where
  "lookup_previous previousState k =
     (case map_of previousState k of Some r \<Rightarrow> Some r | None \<Rightarrow> proto_member k)"

text \<open>
  The objects \<open>indexed\<close> and \<open>currentIndexed\<close> start as \<open>{}\<close> and are filled by
  assignments \<open>obj[item.id] = item\<close>. Such an object is its own properties together with
  its prototype: \<open>None\<close> for \<open>Object.prototype\<close>, or the record that an assignment to
  \<open>__proto__\<close> has put in its place (the prototype of that record is \<open>Object.prototype\<close>).
\<close>

record js_dict =
  own_props :: snapshot
  proto_obj :: "jsobject option"

definition empty_dict :: js_dict where
  "empty_dict = \<lparr>own_props = [], proto_obj = None\<rparr>"

text \<open>
  The assignment \<open>obj[k] = item\<close> on such an object. For the key \<open>__proto__\<close> it runs
  the setter inherited from \<open>Object.prototype\<close>, which replaces the prototype by the
  record and stores nothing, unless \<open>__proto__\<close> is a data property of the object or of
  the record that is its prototype. Every other assignment creates or updates an own
  property.
\<close>

definition dict_set :: "js_dict \<Rightarrow> string \<Rightarrow> jsobject \<Rightarrow> js_dict" where
  "dict_set d k item =
     (if k = ''__proto__'' \<and> map_of (own_props d) k = None \<and>
         (case proto_obj d of None \<Rightarrow> True | Some p \<Rightarrow> map_of p k = None)
      then d\<lparr>proto_obj := Some item\<rparr>
      else d\<lparr>own_props := obj_set (own_props d) k item\<rparr>)"

text \<open>
  The test \<open>obj[k]\<close> for truthiness: an own property is a record, hence truthy; then
  the properties of a record put in place of the prototype answer, with their values;
  then the members of \<open>Object.prototype\<close>, which are functions or, for \<open>__proto__\<close>,
  the prototype of the object.
\<close>

definition dict_truthy :: "js_dict \<Rightarrow> string \<Rightarrow> bool" where
  "dict_truthy d k =
     (case map_of (own_props d) k of
        Some r \<Rightarrow> True
      | None \<Rightarrow>
          (case proto_obj d of
             None \<Rightarrow> k \<in> set PROTO_NAMES
           | Some p \<Rightarrow> (case map_of p k of Some v \<Rightarrow> truthy v | None \<Rightarrow> k \<in> set PROTO_NAMES)))"

text \<open>
  \<open>saveCurrentState\<close>: index the fetched records by identifier, skipping those that have
  none (\<open>save_step\<close> is the body of \<open>data.forEach\<close>). What is written to the state file,
  \<open>JSON.stringify(indexed)\<close>, is the own properties of the object.
\<close>

definition save_step :: "js_dict \<Rightarrow> jsobject \<Rightarrow> js_dict" where
  "save_step indexed item = (if has_id item then dict_set indexed (item_key item) item else indexed)"

definition saveCurrentState :: "jsobject list \<Rightarrow> snapshot" where
  "saveCurrentState data = own_props (foldl save_step empty_dict data)"

text \<open>
  The invariant of a snapshot: its keys are unique and every record is stored under the
  key of its own identifier.
\<close>

definition wf_snapshot :: "snapshot \<Rightarrow> bool" where
  "wf_snapshot P = (distinct (map fst P) \<and> (\<forall>(k, r) \<in> set P. has_id r \<and> item_key r = k))"

section \<open>The diff engine\<close>

record modification =
  champ :: string
  label :: string
  ancienne_valeur :: jsval
  nouvelle_valeur :: jsval

text \<open>
  One entry of a change set. The entries of \<open>nouveaux\<close> and \<open>supprimes\<close> are built without
  the properties \<open>ancienMinistere\<close> and \<open>modifications\<close>, which is \<open>None\<close> here.
\<close>

record change_entry =
  id_val :: jsval
  etablissement :: jsobject
  ministere :: jsval
  region :: jsval
  ancienMinistere :: "jsval option"
  modifications :: "modification list option"

record changes =
  nouveaux :: "change_entry list"
  modifies :: "change_entry list"
  supprimes :: "change_entry list"
  timestamp :: string

text \<open>The normalisation applied to both sides before a field is compared.\<close>

definition norm :: "jsval \<Rightarrow> string" where
  "norm v = (if v = JNull \<or> v = JUndefined then [] else js_String v)"

text \<open>The body of \<open>MONITORED_FIELDS.forEach\<close> for one field: what it pushes.\<close>

definition compare_field :: "jsobject \<Rightarrow> jsobject \<Rightarrow> string \<Rightarrow> modification list" where
  "compare_field previous item field =
     (let oldValue = get previous field;
          newValue = get item field;
          oldNorm = norm oldValue;
          newNorm = norm newValue
      in if oldNorm \<noteq> newNorm
         then [\<lparr>champ = field, label = field_label field,
                ancienne_valeur = oldValue, nouvelle_valeur = newValue\<rparr>]
         else [])"

definition compare_fields :: "jsobject \<Rightarrow> jsobject \<Rightarrow> modification list" where
  "compare_fields previous item = concat (map (compare_field previous item) MONITORED_FIELDS)"

text \<open>The three object literals that \<open>detectChanges\<close> pushes.\<close>

definition new_entry :: "jsobject \<Rightarrow> change_entry" where
  "new_entry item =
     \<lparr>id_val = item_id item, etablissement = item,
      ministere = get item ''line_ministry'', region = get item ''region_lib'',
      ancienMinistere = None, modifications = None\<rparr>"

definition modified_entry :: "jsobject \<Rightarrow> jsobject \<Rightarrow> modification list \<Rightarrow> change_entry" where
  "modified_entry previous item mods =
     \<lparr>id_val = item_id item, etablissement = item,
      ministere = get item ''line_ministry'', region = get item ''region_lib'',
      ancienMinistere = Some (get previous ''line_ministry''), modifications = Some mods\<rparr>"

definition removed_entry :: "string \<Rightarrow> jsobject \<Rightarrow> change_entry" where
  "removed_entry k item =
     \<lparr>id_val = JStr k, etablissement = item,
      ministere = get item ''line_ministry'', region = get item ''region_lib'',
      ancienMinistere = None, modifications = None\<rparr>"

text \<open>
  The state of the first loop of \<open>detectChanges\<close>: the change set under construction and
  \<open>currentIndexed\<close>. \<open>detect_item\<close> is the body of \<open>currentData.forEach\<close>. Whatever
  \<open>previousState[item.id]\<close> answers, a stored record or an inherited member, is an
  object, hence truthy: \<open>!previous\<close> holds exactly when it answers \<open>undefined\<close>.
\<close>

type_synonym diff_state = "changes \<times> js_dict"

definition detect_item :: "snapshot \<Rightarrow> diff_state \<Rightarrow> jsobject \<Rightarrow> diff_state" where
  "detect_item previousState st item =
     (case st of (ch, currentIndexed) \<Rightarrow>
        if \<not> has_id item then (ch, currentIndexed)
        else
          let currentIndexed' = dict_set currentIndexed (item_key item) item in
          (case lookup_previous previousState (item_key item) of
             None \<Rightarrow> (ch\<lparr>nouveaux := nouveaux ch @ [new_entry item]\<rparr>, currentIndexed')
           | Some previous \<Rightarrow>
               let mods = compare_fields previous item in
               if length mods > 0
               then (ch\<lparr>modifies := modifies ch @ [modified_entry previous item mods]\<rparr>,
                     currentIndexed')
               else (ch, currentIndexed')))"

text \<open>
  The body of \<open>Object.keys(previousState).forEach\<close> for one key; the key is an own
  property of the previous state.
\<close>

definition detect_removed :: "snapshot \<Rightarrow> js_dict \<Rightarrow> changes \<Rightarrow> string \<Rightarrow> changes" where
  "detect_removed previousState currentIndexed ch k =
     (if \<not> dict_truthy currentIndexed k
      then (case map_of previousState k of
              None \<Rightarrow> ch
            | Some item \<Rightarrow> ch\<lparr>supprimes := supprimes ch @ [removed_entry k item]\<rparr>)
      else ch)"

text \<open>
  \<open>detectChanges\<close>; the clock reading \<open>new Date().toISOString()\<close> is the parameter \<open>now\<close>.
\<close>

definition detectChanges :: "string \<Rightarrow> snapshot \<Rightarrow> jsobject list \<Rightarrow> changes" where
  "detectChanges now previousState currentData =
     (let changes0 = \<lparr>nouveaux = [], modifies = [], supprimes = [], timestamp = now\<rparr>;
          (changes1, currentIndexed) = foldl (detect_item previousState) (changes0, empty_dict) currentData
      in foldl (detect_removed previousState currentIndexed) changes1 (map fst previousState))"



text \<open>The identifiers present in a record sequence: the keys of the records that have one.\<close>

definition current_keys :: "jsobject list \<Rightarrow> string list" where
  "current_keys currentData = map item_key (filter has_id currentData)"

text \<open>Two records agree on every monitored field after normalisation.\<close>

definition same_monitored :: "jsobject \<Rightarrow> jsobject \<Rightarrow> bool" where
  "same_monitored previous item =
     (\<forall>f \<in> set MONITORED_FIELDS. norm (get previous f) = norm (get item f))"

text \<open>
  The object \<open>currentIndexed\<close> at the end of the first loop, what one record of the
  current data contributes to \<open>modifies\<close>, and what one key of the previous state
  contributes to \<open>supprimes\<close>; the loops of \<open>detectChanges\<close> are characterised with them
  below.
\<close>

definition current_index :: "jsobject list \<Rightarrow> js_dict" where
  "current_index C = foldl save_step empty_dict C"

definition modified_of :: "snapshot \<Rightarrow> jsobject \<Rightarrow> change_entry list" where
  "modified_of P i =
     (if has_id i then
        (case lookup_previous P (item_key i) of
           None \<Rightarrow> []
         | Some previous \<Rightarrow>
             if compare_fields previous i \<noteq> []
             then [modified_entry previous i (compare_fields previous i)] else [])
      else [])"

definition removed_of :: "snapshot \<Rightarrow> jsobject list \<Rightarrow> string \<Rightarrow> change_entry list" where
  "removed_of P C k =
     (if \<not> dict_truthy (current_index C) k
      then (case map_of P k of None \<Rightarrow> [] | Some item \<Rightarrow> [removed_entry k item])
      else [])"




text \<open>A previous state and a current record sequence used as concrete inputs below.\<close>

definition example_previous :: snapshot where
  "example_previous =
     [(''1'', [(''id'', JNum 1), (''name'', JStr ''A''), (''daily_meal_count'', JNum 100)]),
      (''2'', [(''id'', JNum 2), (''name'', JStr ''B''), (''line_ministry'', JNull)])]"

definition example_current :: "jsobject list" where
  "example_current =
     [[(''id'', JNum 2), (''name'', JStr ''B''), (''line_ministry'', JStr [])],
      [(''name'', JStr ''no identifier'')],
      [(''id'', JNum 3), (''name'', JStr ''C'')]]"

text \<open>The values that the normalisation collapses to the empty string.\<close>

definition empty_like :: "jsval \<Rightarrow> bool" where
  "empty_like v = (v = JNull \<or> v = JUndefined \<or> v = JStr [])"



text \<open>Two versions of one record that differ only in representation.\<close>

definition example_old :: jsobject where
  "example_old = [(''id'', JNum 7), (''name'', JStr ''A''), (''siret'', JNull), (''daily_meal_count'', JNum 100),
      (''active_on_ma_cantine'', JBool True)]"

definition example_new :: jsobject where
  "example_new = [(''id'', JNum 7), (''name'', JStr ''A''), (''siret'', JStr []), (''city'', JNull),
      (''daily_meal_count'', JStr ''100''), (''active_on_ma_cantine'', JStr ''true'')]"

section \<open>The fetcher\<close>

text \<open>
  What one call of \<open>fetch(url)\<close> gives the loop: the request is rejected (a network
  error), the response has a non-success status, its body cannot be parsed or used
  (\<open>response.json()\<close> rejects, or \<open>result.data\<close> cannot be spread), or it is a page.
  \<open>Page pageData tot\<close> carries \<open>result.data || []\<close> and \<open>result.meta?.total || 0\<close>.
  The server is a function from the number of requests made so far to the response of
  the next one. When \<open>result.data\<close> cannot be spread the code has assigned \<open>total\<close>
  before the spread raises; only the final log message reads that value, and the model
  leaves \<open>total\<close> as it was.
\<close>

datatype response = NetworkError | BadStatus nat | Malformed | Page "jsobject list" int

text \<open>
  The observable effects, in order: a request for a page, a pause in milliseconds, the
  warning of the page limit, and the write of the state file. The progress and error
  messages of \<open>console.log\<close> and \<open>console.error\<close> are left out.
\<close>

datatype event = Fetch nat | Sleep nat | Warn_limit | Write_state

text \<open>
  The variables of \<open>fetchAllData\<close>, with the number of requests made and the effects
  so far.
\<close>

record fetch_state =
  allData :: "jsobject list"
  currentPage :: nat
  hasMore :: bool
  total :: int
  calls :: nat
  trace :: "event list"

text \<open>
  How one pass through the body of \<open>while (hasMore)\<close> ends: with \<open>break\<close>, or by
  going back to the loop test (at the end of the body or with \<open>continue\<close>).
\<close>

datatype iteration = Break fetch_state | Next fetch_state

text \<open>
  The \<open>catch\<close> block: wait two seconds and request the same page once more. A page
  is appended and the loop continues with the next page, without looking at \<open>total\<close>,
  at the size of the page or at the page limit; anything else ends the loop.
\<close>

definition retry_page :: "(nat \<Rightarrow> response) \<Rightarrow> fetch_state \<Rightarrow> iteration" where
  "retry_page server s =
     (let s1 = s\<lparr>calls := calls s + 2,
                 trace := trace s @ [Fetch (currentPage s), Sleep 2000, Fetch (currentPage s)]\<rparr>
      in case server (calls s + 1) of
           Page pageData tot \<Rightarrow>
             Next (s1\<lparr>allData := allData s @ pageData, currentPage := currentPage s + 1\<rparr>)
         | _ \<Rightarrow> Break s1)"

text \<open>
  The body of the loop. The \<open>try\<close> block completes on a page; every other response
  raises inside it and runs the \<open>catch\<close> block.
\<close>

definition fetch_body :: "(nat \<Rightarrow> response) \<Rightarrow> fetch_state \<Rightarrow> iteration" where
  "fetch_body server s =
     (case server (calls s) of
        Page pageData tot \<Rightarrow>
          (let allData' = allData s @ pageData;
               hasMore' = (int (length allData') < tot \<and> length pageData > 0);
               currentPage' = currentPage s + 1;
               s' = \<lparr>allData = allData', currentPage = currentPage', hasMore = hasMore',
                     total = tot, calls = calls s + 1,
                     trace = trace s @ [Fetch (currentPage s)] @ (if hasMore' then [Sleep 50] else [])\<rparr>
           in if currentPage' > MAX_PAGES then Break (s'\<lparr>trace := trace s' @ [Warn_limit]\<rparr>)
              else Next s')
      | _ \<Rightarrow> retry_page server s)"

text \<open>
  The loop \<open>while (hasMore) { ... }\<close>. It is a partial function: \<open>None\<close> is a loop
  that never ends.
\<close>

partial_function (option) fetch_loop :: "(nat \<Rightarrow> response) \<Rightarrow> fetch_state \<Rightarrow> fetch_state option" where
  "fetch_loop server s =
     (if \<not> hasMore s then Some s
      else (case fetch_body server s of
              Break s' \<Rightarrow> Some s'
            | Next s' \<Rightarrow> fetch_loop server s'))"

text \<open>
  The initial values of the variables.
\<close>

definition fetch_init :: fetch_state where
  "fetch_init = \<lparr>allData = [], currentPage = 1, hasMore = True, total = 0, calls = 0, trace = []\<rparr>"

text \<open>
  \<open>fetchAllData\<close>: the state in which the loop ends. The JavaScript function returns
  its \<open>allData\<close>.
\<close>

definition fetchAllData :: "(nat \<Rightarrow> response) \<Rightarrow> fetch_state option" where
  "fetchAllData server = fetch_loop server fetch_init"

text \<open>
  A server that answers the first request of every page with status 429 and the retry,
  two seconds later, with an empty page and a total of zero.
\<close>

definition rate_limited :: "nat \<Rightarrow> response" where
  "rate_limited n = (if even n then BadStatus 429 else Page [] 0)"

text \<open>
  A request succeeds when it is answered with a page.
\<close>

definition is_page :: "response \<Rightarrow> bool" where
  "is_page r = (case r of Page d t \<Rightarrow> True | _ \<Rightarrow> False)"

text \<open>
  Every other response is a failure of the page.
\<close>

definition is_failure :: "response \<Rightarrow> bool" where
  "is_failure r = (\<not> is_page r)"

text \<open>
  The state at the loop test after \<open>n\<close> passes through the body, when the loop is
  still running then.
\<close>

fun fetch_iter :: "nat \<Rightarrow> (nat \<Rightarrow> response) \<Rightarrow> fetch_state \<Rightarrow> fetch_state option" where
  "fetch_iter 0 server s = Some s"
| "fetch_iter (Suc n) server s =
     (if \<not> hasMore s then None
      else (case fetch_body server s of
              Break s' \<Rightarrow> None
            | Next s' \<Rightarrow> fetch_iter n server s'))"

text \<open>
  The state in which a pass through the body ends.
\<close>

definition state_of :: "iteration \<Rightarrow> fetch_state" where
  "state_of i = (case i of Break s \<Rightarrow> s | Next s \<Rightarrow> s)"

text \<open>
  The effects of a failed request and its retry: the request, the pause of two seconds
  and the second request for the same page.
\<close>

definition retry_events :: "nat \<Rightarrow> event list" where
  "retry_events page = [Fetch page, Sleep 2000, Fetch page]"

text \<open>
  A server that delivers a first page of two records out of 120 and fails afterwards.
\<close>

definition failing_server :: "nat \<Rightarrow> response" where
  "failing_server n =
     (if n = 0 then Page [[(''id'', JNum 1)], [(''id'', JNum 2)]] 120
      else if n = 1 then BadStatus 503
      else NetworkError)"

text \<open>
  The state of the loop after the first page of \<open>failing_server\<close>.
\<close>

definition after_first_page :: fetch_state where
  "after_first_page =
     \<lparr>allData = [[(''id'', JNum 1)], [(''id'', JNum 2)]], currentPage = 2, hasMore = True,
      total = 120, calls = 1, trace = [Fetch 1, Sleep 50]\<rparr>"

section \<open>The run\<close>

text \<open>
  The state file \<open>data/previous-state.json\<close>: missing, not parseable, or the JSON
  text of a snapshot.
\<close>

datatype file_state = Absent | Unreadable | Stored snapshot

text \<open>
  \<open>loadPreviousData\<close>: a missing or unreadable file is an empty previous state.
\<close>

definition loadPreviousData :: "file_state \<Rightarrow> snapshot" where
  "loadPreviousData file = (case file of Absent \<Rightarrow> [] | Unreadable \<Rightarrow> [] | Stored data \<Rightarrow> data)"

text \<open>
  How far \<open>main\<close> gets: it stops because nothing was fetched (\<open>process.exit(1)\<close>),
  it stops after recording the first state (\<open>process.exit(0)\<close>), or it goes on with the
  change set, to the report and the notifications.
\<close>

datatype outcome = Exit_no_data | First_run | Compared changes

text \<open>
  The exit code of the two early exits.
\<close>

definition exit_code :: "outcome \<Rightarrow> nat option" where
  "exit_code out = (case out of Exit_no_data \<Rightarrow> Some 1 | First_run \<Rightarrow> Some 0 | Compared ch \<Rightarrow> None)"

text \<open>
  What a run of \<open>main\<close> leaves: its outcome, the state file and the effects in order.
\<close>

record run =
  outcome :: outcome
  state_file :: file_state
  events :: "event list"

text \<open>
  \<open>main\<close>, steps 1 to 5. The steps that follow (report, notifications) do not touch
  the state file. A fetch that never returns gives no run.
\<close>

definition main :: "(nat \<Rightarrow> response) \<Rightarrow> string \<Rightarrow> file_state \<Rightarrow> run option" where
  "main server now file =
     (let previousState = loadPreviousData file;
          isFirstRun = (length (map fst previousState) = 0)
      in case fetchAllData server of
           None \<Rightarrow> None
         | Some fetched \<Rightarrow>
             (let currentData = allData fetched in
              if length currentData = 0
              then Some \<lparr>outcome = Exit_no_data, state_file = file, events = trace fetched\<rparr>
              else
                (let currentState = saveCurrentState currentData;
                     file' = Stored currentState;
                     events' = trace fetched @ [Write_state]
                 in if isFirstRun
                    then Some \<lparr>outcome = First_run, state_file = file', events = events'\<rparr>
                    else Some \<lparr>outcome = Compared (detectChanges now previousState currentData),
                               state_file = file', events = events'\<rparr>)))"

text \<open>
  The effects of the fetch loop: everything but the write of the state file.
\<close>

definition is_fetch_event :: "event \<Rightarrow> bool" where
  "is_fetch_event e = (case e of Fetch p \<Rightarrow> True | Sleep ms \<Rightarrow> True | Warn_limit \<Rightarrow> True | Write_state \<Rightarrow> False)"

text \<open>
  A server that is not reachable.
\<close>

definition down_server :: "nat \<Rightarrow> response" where
  "down_server n = NetworkError"

text \<open>
  The run against \<open>down_server\<close>.
\<close>

definition aborted_run :: run where
  "aborted_run =
     \<lparr>outcome = Exit_no_data, state_file = Stored example_previous,
      events = [Fetch 1, Sleep 2000, Fetch 1]\<rparr>"

text \<open>
  The run against \<open>failing_server\<close>.
\<close>

definition partial_run :: run where
  "partial_run =
     \<lparr>outcome = Compared (detectChanges ''t'' example_previous [[(''id'', JNum 1)], [(''id'', JNum 2)]]),
      state_file = Stored (saveCurrentState [[(''id'', JNum 1)], [(''id'', JNum 2)]]),
      events = [Fetch 1, Sleep 50, Fetch 2, Sleep 2000, Fetch 2, Write_state]\<rparr>"

section \<open>The scope filter\<close>

text \<open>
  \<open>arr.includes(v)\<close> on primitives.
\<close>

definition js_includes :: "jsval list \<Rightarrow> jsval \<Rightarrow> bool" where
  "js_includes arr v = (v \<in> set arr)"

text \<open>
  The property read \<open>item.ancienMinistere\<close>: \<open>undefined\<close> on an entry built without
  it.
\<close>

definition prop_ancienMinistere :: "change_entry \<Rightarrow> jsval" where
  "prop_ancienMinistere item = (case ancienMinistere item of None \<Rightarrow> JUndefined | Some v \<Rightarrow> v)"

text \<open>
  The closure \<open>filterItem\<close> of \<open>filterChangesForSubscriber\<close>.
\<close>

definition filterItem :: "jsval list \<Rightarrow> change_entry \<Rightarrow> bool" where
  "filterItem perimetres item =
     (if js_includes perimetres (ministere item) then True
      else if js_includes perimetres (region item) then True
      else if truthy (prop_ancienMinistere item) \<and> js_includes perimetres (prop_ancienMinistere item)
      then True
      else False)"

text \<open>
  \<open>filterChangesForSubscriber\<close>, on change sets as values.
\<close>

definition filterChangesForSubscriber :: "changes \<Rightarrow> jsval list \<Rightarrow> changes" where
  "filterChangesForSubscriber ch perimetres =
     (if js_includes perimetres (JStr ''ALL'') then ch
      else \<lparr>nouveaux = filter (filterItem perimetres) (nouveaux ch),
            modifies = filter (filterItem perimetres) (modifies ch),
            supprimes = filter (filterItem perimetres) (supprimes ch),
            timestamp = timestamp ch\<rparr>)"

text \<open>
  A list of scope tokens is an array of strings.
\<close>

definition scope_tokens :: "string list \<Rightarrow> jsval list" where
  "scope_tokens tokens = map JStr tokens"

text \<open>
  A value is a scope token when it is one of the strings of the list.
\<close>

definition is_scope_token :: "string list \<Rightarrow> jsval \<Rightarrow> bool" where
  "is_scope_token tokens v = (\<exists>t \<in> set tokens. v = JStr t)"

text \<open>
  The rule as the specification words it, for an added or removed entry: its current
  supervising authority or its current region is a scope token.
\<close>

definition retained_spec :: "string list \<Rightarrow> change_entry \<Rightarrow> bool" where
  "retained_spec tokens e = (is_scope_token tokens (ministere e) \<or> is_scope_token tokens (region e))"

text \<open>
  The rule as the specification words it, for a modified entry: its current supervising
  authority, its current region or its previous supervising authority is a scope token.
\<close>

definition retained_modified_spec :: "string list \<Rightarrow> change_entry \<Rightarrow> bool" where
  "retained_modified_spec tokens e =
     (is_scope_token tokens (ministere e) \<or> is_scope_token tokens (region e) \<or>
      (case ancienMinistere e of None \<Rightarrow> False | Some a \<Rightarrow> is_scope_token tokens a))"

text \<open>
  The scope filter as the specification words it.
\<close>

definition filterForScope_spec :: "changes \<Rightarrow> string list \<Rightarrow> changes" where
  "filterForScope_spec ch tokens =
     (if ''ALL'' \<in> set tokens then ch
      else \<lparr>nouveaux = filter (retained_spec tokens) (nouveaux ch),
            modifies = filter (retained_modified_spec tokens) (modifies ch),
            supprimes = filter (retained_spec tokens) (supprimes ch),
            timestamp = timestamp ch\<rparr>)"

text \<open>
  The rule that the code applies to a modified entry: the previous supervising
  authority counts only when it is not the empty string.
\<close>

definition retained_modified :: "string list \<Rightarrow> change_entry \<Rightarrow> bool" where
  "retained_modified tokens e =
     (is_scope_token tokens (ministere e) \<or> is_scope_token tokens (region e) \<or>
      (case ancienMinistere e of None \<Rightarrow> False | Some a \<Rightarrow> a \<noteq> JStr [] \<and> is_scope_token tokens a))"

text \<open>
  The shape of a change set: the entries of \<open>nouveaux\<close> and \<open>supprimes\<close> have no
  previous supervising authority.
\<close>

definition well_shaped :: "changes \<Rightarrow> bool" where
  "well_shaped ch =
     (list_all (\<lambda>e. ancienMinistere e = None) (nouveaux ch) \<and>
      list_all (\<lambda>e. ancienMinistere e = None) (supprimes ch))"

text \<open>
  An institution without supervising authority that becomes attached to one.
\<close>

definition attached_previous :: snapshot where
  "attached_previous =
     [(''1'', [(''id'', JNum 1), (''name'', JStr ''A''), (''line_ministry'', JStr []),
               (''region_lib'', JStr ''Bretagne'')])]"

definition attached_current :: "jsobject list" where
  "attached_current =
     [[(''id'', JNum 1), (''name'', JStr ''A''), (''line_ministry'', JStr ''Justice''),
       (''region_lib'', JStr ''Bretagne'')]]"

text \<open>
  A previous state and current data with an added, a removed and a detached institution.
\<close>

definition scope_previous :: snapshot where
  "scope_previous =
     [(''1'', [(''id'', JNum 1), (''line_ministry'', JStr ''Justice''), (''region_lib'', JStr ''Bretagne'')]),
      (''2'', [(''id'', JNum 2), (''line_ministry'', JStr ''Culture''), (''region_lib'', JStr ''Corse'')])]"

definition scope_current :: "jsobject list" where
  "scope_current =
     [[(''id'', JNum 1), (''line_ministry'', JStr []), (''region_lib'', JStr ''Bretagne'')],
      [(''id'', JNum 3), (''line_ministry'', JStr ''Culture''), (''region_lib'', JStr ''Corse'')],
      [(''id'', JNum 4), (''line_ministry'', JStr ''Justice''), (''region_lib'', JStr ''Corse'')]]"

definition scope_changes :: changes where
  "scope_changes = detectChanges ''t'' scope_previous scope_current"

definition attached_changes :: changes where
  "attached_changes = detectChanges ''t'' attached_previous attached_current"

section \<open>The scope filter on a store\<close>

text \<open>
  The objects that \<open>filterChangesForSubscriber\<close> reads and builds, in a store: an
  entry, an array of references to entries, a change set (references to its three arrays
  and its timestamp) and the array of scope tokens. A reference is an index of the
  store; a new object is appended.
\<close>

datatype hobj =
    HEntry change_entry
  | HArray "nat list"
  | HChanges nat nat nat string
  | HTokens "jsval list"

type_synonym heap = "hobj list"

text \<open>
  Reading a reference and allocating an object.
\<close>

definition lookup :: "heap \<Rightarrow> nat \<Rightarrow> hobj option" where
  "lookup h a = (if a < length h then Some (h ! a) else None)"

definition alloc :: "heap \<Rightarrow> hobj \<Rightarrow> nat \<times> heap" where
  "alloc h obj = (length h, h @ [obj])"

text \<open>
  The entry, the entries of an array (each with its reference) and the tokens behind a
  reference; \<open>None\<close> when the object there is of another kind.
\<close>

definition entry_at :: "heap \<Rightarrow> nat \<Rightarrow> change_entry option" where
  "entry_at h a = (case lookup h a of Some (HEntry e) \<Rightarrow> Some e | _ \<Rightarrow> None)"

fun read_entries :: "heap \<Rightarrow> nat list \<Rightarrow> (nat \<times> change_entry) list option" where
  "read_entries h [] = Some []"
| "read_entries h (r # rs) =
     (case entry_at h r of
        None \<Rightarrow> None
      | Some e \<Rightarrow> (case read_entries h rs of None \<Rightarrow> None | Some es \<Rightarrow> Some ((r, e) # es)))"

definition entries_at :: "heap \<Rightarrow> nat \<Rightarrow> (nat \<times> change_entry) list option" where
  "entries_at h a = (case lookup h a of Some (HArray refs) \<Rightarrow> read_entries h refs | _ \<Rightarrow> None)"

definition tokens_at :: "heap \<Rightarrow> nat \<Rightarrow> jsval list option" where
  "tokens_at h a = (case lookup h a of Some (HTokens ts) \<Rightarrow> Some ts | _ \<Rightarrow> None)"

text \<open>
  \<open>array.filter(filterItem)\<close>: the references of the entries that pass, in order.
\<close>

definition filter_refs :: "jsval list \<Rightarrow> (nat \<times> change_entry) list \<Rightarrow> nat list" where
  "filter_refs perimetres items = map fst (filter (\<lambda>(r, item). filterItem perimetres item) items)"

text \<open>
  \<open>filterChangesForSubscriber\<close> on the store. With \<open>ALL\<close> it returns the reference
  it was given. Otherwise it allocates the three filtered arrays and the object that
  holds them, in the order of the object literal, and writes to nothing else. \<open>None\<close>
  stands for arguments that are not a token array and a change set of entries.
\<close>

definition filterChangesForSubscriber_heap :: "heap \<Rightarrow> nat \<Rightarrow> nat \<Rightarrow> (nat \<times> heap) option" where
  "filterChangesForSubscriber_heap h changes_ref perimetres_ref =
     (case tokens_at h perimetres_ref of
        None \<Rightarrow> None
      | Some perimetres \<Rightarrow>
          if js_includes perimetres (JStr ''ALL'') then Some (changes_ref, h)
          else
            (case lookup h changes_ref of
               Some (HChanges n m s ts) \<Rightarrow>
                 (case (entries_at h n, entries_at h m, entries_at h s) of
                    (Some ns, Some ms, Some ss) \<Rightarrow>
                      (let (n', h1) = alloc h (HArray (filter_refs perimetres ns));
                           (m', h2) = alloc h1 (HArray (filter_refs perimetres ms));
                           (s', h3) = alloc h2 (HArray (filter_refs perimetres ss))
                       in Some (alloc h3 (HChanges n' m' s' ts)))
                  | _ \<Rightarrow> None)
             | _ \<Rightarrow> None))"

text \<open>
  The change set behind a reference as a value, the references in an array, and the
  three reference sequences of a change set with its timestamp.
\<close>

definition changes_at :: "heap \<Rightarrow> nat \<Rightarrow> changes option" where
  "changes_at h a =
     (case lookup h a of
        Some (HChanges n m s ts) \<Rightarrow>
          (case (entries_at h n, entries_at h m, entries_at h s) of
             (Some ns, Some ms, Some ss) \<Rightarrow>
               Some \<lparr>nouveaux = map snd ns, modifies = map snd ms, supprimes = map snd ss,
                     timestamp = ts\<rparr>
           | _ \<Rightarrow> None)
      | _ \<Rightarrow> None)"

definition refs_at :: "heap \<Rightarrow> nat \<Rightarrow> nat list" where
  "refs_at h a = (case lookup h a of Some (HArray refs) \<Rightarrow> refs | _ \<Rightarrow> [])"

definition sequences_at :: "heap \<Rightarrow> nat \<Rightarrow> (nat list \<times> nat list \<times> nat list \<times> string) option" where
  "sequences_at h a =
     (case lookup h a of
        Some (HChanges n m s ts) \<Rightarrow> Some (refs_at h n, refs_at h m, refs_at h s, ts)
      | _ \<Rightarrow> None)"

text \<open>
  A store with two added entries, a modified one, their change set and the scope of a
  subscriber.
\<close>

definition heap_entry :: "int \<Rightarrow> string \<Rightarrow> string \<Rightarrow> string option \<Rightarrow> change_entry" where
  "heap_entry n authority reg previous =
     \<lparr>id_val = JNum n, etablissement = [(''id'', JNum n)],
      ministere = JStr authority, region = JStr reg,
      ancienMinistere = map_option JStr previous,
      modifications = map_option (\<lambda>p. [\<lparr>champ = ''line_ministry'', label = field_label ''line_ministry'',
          ancienne_valeur = JStr p, nouvelle_valeur = JStr authority\<rparr>]) previous\<rparr>"

definition example_heap :: heap where
  "example_heap =
     [HEntry (heap_entry 3 ''Culture'' ''Corse'' None),
      HEntry (heap_entry 4 ''Justice'' ''Corse'' None),
      HEntry (heap_entry 1 [] ''Bretagne'' (Some ''Justice'')),
      HArray [0, 1],
      HArray [2],
      HArray [],
      HChanges 3 4 5 ''t'',
      HTokens [JStr ''Justice'']]"

definition example_heap_changes :: changes where
  "example_heap_changes =
     \<lparr>nouveaux = [heap_entry 3 ''Culture'' ''Corse'' None, heap_entry 4 ''Justice'' ''Corse'' None],
      modifies = [heap_entry 1 [] ''Bretagne'' (Some ''Justice'')],
      supprimes = [], timestamp = ''t''\<rparr>"








text \<open>
  The fetch ended in one of the three ways of the specification: the accumulated records
  reached the reported total or a page was empty (\<open>hasMore\<close> is false), or the page
  limit was passed. The other way out of the loop is the \<open>break\<close> after a failed retry.
\<close>

definition fetch_completed :: "fetch_state \<Rightarrow> bool" where
  "fetch_completed s = (\<not> hasMore s \<or> MAX_PAGES < currentPage s)"

text \<open>The state in which the fetch from \<open>failing_server\<close> ends.\<close>

definition truncated_fetch :: fetch_state where
  "truncated_fetch =
     after_first_page\<lparr>calls := 3, trace := [Fetch 1, Sleep 50, Fetch 2, Sleep 2000, Fetch 2]\<rparr>"

section \<open>Properties of the diff engine\<close>

lemma detect_item_nouveaux:
  "nouveaux (fst (foldl (detect_item P) st C)) =
     nouveaux (fst st) @
       map new_entry (filter (\<lambda>i. has_id i \<and> lookup_previous P (item_key i) = None) C)"
  by (induction C arbitrary: st) (auto simp: detect_item_def Let_def split: prod.splits option.splits)

lemma detect_item_modifies:
  "modifies (fst (foldl (detect_item P) st C)) =
     modifies (fst st) @ concat (map (modified_of P) C)"
  by (induction C arbitrary: st) (auto simp: detect_item_def modified_of_def Let_def split: prod.splits option.splits)

lemma detect_item_supprimes:
  "supprimes (fst (foldl (detect_item P) st C)) = supprimes (fst st)"
  by (induction C arbitrary: st) (auto simp: detect_item_def Let_def split: prod.splits option.splits)

lemma detect_item_timestamp:
  "timestamp (fst (foldl (detect_item P) st C)) = timestamp (fst st)"
  by (induction C arbitrary: st) (auto simp: detect_item_def Let_def split: prod.splits option.splits)

lemma snd_detect_item: "snd (detect_item P st item) = save_step (snd st) item"
  by (simp add: detect_item_def save_step_def Let_def split: prod.splits option.splits)

lemma detect_item_index:
  "snd (foldl (detect_item P) st C) = foldl save_step (snd st) C"
  by (induction C arbitrary: st) (simp_all add: snd_detect_item)

lemma detect_removed_fold:
  "foldl (detect_removed P idx) ch ks =
     ch\<lparr>supprimes := supprimes ch @
         concat (map (\<lambda>k. if \<not> dict_truthy idx k
                          then (case map_of P k of None \<Rightarrow> [] | Some item \<Rightarrow> [removed_entry k item])
                          else []) ks)\<rparr>"
  by (induction ks arbitrary: ch) (auto simp: detect_removed_def split: option.splits)

lemma detectChanges_closed:
  "detectChanges now P C =
     \<lparr>nouveaux = map new_entry (filter (\<lambda>i. has_id i \<and> lookup_previous P (item_key i) = None) C),
      modifies = concat (map (modified_of P) C),
      supprimes = concat (map (removed_of P C) (map fst P)),
      timestamp = now\<rparr>"
proof -
  let ?ch0 = "\<lparr>nouveaux = [], modifies = [], supprimes = [], timestamp = now\<rparr>"
  let ?st = "foldl (detect_item P) (?ch0, empty_dict) C"
  have idx: "snd ?st = current_index C"
    using detect_item_index [of P "(?ch0, empty_dict)" C] by (simp add: current_index_def)
  have "detectChanges now P C = foldl (detect_removed P (snd ?st)) (fst ?st) (map fst P)"
    by (simp add: detectChanges_def Let_def case_prod_beta)
  also have "\<dots> = (fst ?st)\<lparr>supprimes := supprimes (fst ?st) @ concat (map (removed_of P C) (map fst P))\<rparr>"
    unfolding detect_removed_fold idx by (simp add: removed_of_def [abs_def])
  finally show ?thesis
    by (simp add: detect_item_nouveaux detect_item_modifies detect_item_supprimes
        detect_item_timestamp)
qed

lemma compare_field_empty:
  "(compare_field previous item f = []) = (norm (get previous f) = norm (get item f))"
  by (simp add: compare_field_def Let_def)

lemma compare_fields_empty:
  "(compare_fields previous item = []) = same_monitored previous item"
  by (simp add: compare_fields_def same_monitored_def compare_field_empty)


lemma map_of_None_iff: "(map_of P k = None) = (k \<notin> fst ` set P)"
  by (simp add: map_of_eq_None_iff)


lemma lookup_previous_own: "map_of P k = Some r \<Longrightarrow> lookup_previous P k = Some r"
  by (simp add: lookup_previous_def)



lemma removed_of_simps:
  "dict_truthy (current_index C) k \<Longrightarrow> removed_of P C k = []"
  "map_of P k = None \<Longrightarrow> removed_of P C k = []"
  "\<not> dict_truthy (current_index C) k \<Longrightarrow> map_of P k = Some item \<Longrightarrow>
     removed_of P C k = [removed_entry k item]"
  by (simp_all add: removed_of_def)



lemma modified_of_simps:
  "\<not> has_id i \<Longrightarrow> modified_of P i = []"
  "lookup_previous P (item_key i) = None \<Longrightarrow> modified_of P i = []"
  "lookup_previous P (item_key i) = Some previous \<Longrightarrow> same_monitored previous i \<Longrightarrow>
     modified_of P i = []"
  "has_id i \<Longrightarrow> lookup_previous P (item_key i) = Some previous \<Longrightarrow>
     \<not> same_monitored previous i \<Longrightarrow>
     modified_of P i = [modified_entry previous i (compare_fields previous i)]"
  by (simp_all add: modified_of_def compare_fields_empty)



section \<open>Properties of the snapshot store\<close>

lemma set_insert_key: "set (insert_key k v xs) = insert (k, v) (set xs)"
  by (induction xs) (auto split: option.splits if_splits)

lemma keys_obj_set: "fst ` set (obj_set obj k v) = insert k (fst ` set obj)"
proof (cases "k \<in> fst ` set obj")
  case True
  have "fst ` set (map (\<lambda>(k', v'). if k' = k then (k', v) else (k', v')) obj) = fst ` set obj"
    by (induction obj) (auto split: if_splits)
  with True show ?thesis by (auto simp: obj_set_def)
next
  case False
  then show ?thesis by (simp add: obj_set_def set_insert_key)
qed

lemma distinct_insert_key:
  "distinct (map fst xs) \<Longrightarrow> k \<notin> fst ` set xs \<Longrightarrow> distinct (map fst (insert_key k v xs))"
  by (induction xs) (auto simp: set_insert_key split: option.splits)

lemma map_fst_replace:
  "map fst (map (\<lambda>(k', v'). if k' = k then (k', v) else (k', v')) obj) = map fst obj"
  by (induction obj) auto

lemma distinct_obj_set:
  "distinct (map fst obj) \<Longrightarrow> distinct (map fst (obj_set obj k v))"
  by (simp add: obj_set_def distinct_insert_key map_fst_replace del: map_map)

lemma set_obj_set:
  "set (obj_set obj k v) = insert (k, v) {(k', v') \<in> set obj. k' \<noteq> k}"
proof (cases "k \<in> fst ` set obj")
  case True
  have "set (map (\<lambda>(k', v'). if k' = k then (k', v) else (k', v')) obj) =
          (if k \<in> fst ` set obj then {(k, v)} else {}) \<union> {(k', v') \<in> set obj. k' \<noteq> k}"
    by (induction obj) (auto split: if_splits)
  with True show ?thesis by (simp add: obj_set_def)
next
  case False
  then have "{(k', v') \<in> set obj. k' \<noteq> k} = set obj" by force
  with False show ?thesis by (simp add: obj_set_def set_insert_key)
qed

text \<open>An assignment either replaces the prototype or stores the record.\<close>

lemma dict_set_cases:
  "(k = ''__proto__'' \<and> own_props (dict_set d k item) = own_props d \<and>
      proto_obj (dict_set d k item) = Some item) \<or>
   (own_props (dict_set d k item) = obj_set (own_props d) k item \<and>
      proto_obj (dict_set d k item) = proto_obj d)"
  by (simp add: dict_set_def)


lemma wf_obj_set:
  assumes "wf_snapshot s" "has_id item"
  shows "wf_snapshot (obj_set s (item_key item) item)"
  using assms by (auto simp: wf_snapshot_def distinct_obj_set set_obj_set)

lemma save_step_cases:
  "own_props (save_step d item) = own_props d \<or>
   (has_id item \<and> own_props (save_step d item) = obj_set (own_props d) (item_key item) item)"
proof (cases "has_id item")
  case False
  then show ?thesis by (simp add: save_step_def)
next
  case True
  then have "save_step d item = dict_set d (item_key item) item" by (simp add: save_step_def)
  with dict_set_cases [of "item_key item" d item] True show ?thesis by metis
qed

lemma current_keys_Cons:
  "set (current_keys (i # C)) = (if has_id i then {item_key i} else {}) \<union> set (current_keys C)"
  by (simp add: current_keys_def)

lemma wf_save_step: "wf_snapshot (own_props d) \<Longrightarrow> wf_snapshot (own_props (save_step d item))"
proof -
  assume w: "wf_snapshot (own_props d)"
  from save_step_cases [of d item] show ?thesis
  proof
    assume "own_props (save_step d item) = own_props d"
    with w show ?thesis by simp
  next
    assume "has_id item \<and> own_props (save_step d item) = obj_set (own_props d) (item_key item) item"
    with wf_obj_set [OF w, of item] show ?thesis by simp
  qed
qed

lemma wf_foldl_save:
  "wf_snapshot (own_props d) \<Longrightarrow> wf_snapshot (own_props (foldl save_step d data))"
  by (induction data arbitrary: d) (simp_all add: wf_save_step)

lemma wf_saveCurrentState: "wf_snapshot (saveCurrentState data)"
proof -
  have "wf_snapshot (own_props empty_dict)" by (simp add: wf_snapshot_def empty_dict_def)
  then show ?thesis unfolding saveCurrentState_def by (rule wf_foldl_save)
qed

lemma own_keys_save_step:
  "fst ` set (own_props (save_step d item)) \<subseteq>
     fst ` set (own_props d) \<union> (if has_id item then {item_key item} else {})"
proof -
  from save_step_cases [of d item] show ?thesis
  proof
    assume "own_props (save_step d item) = own_props d"
    then show ?thesis by simp
  next
    assume "has_id item \<and> own_props (save_step d item) = obj_set (own_props d) (item_key item) item"
    then show ?thesis by (auto simp: keys_obj_set)
  qed
qed



lemma own_keys_foldl:
  "fst ` set (own_props (foldl save_step d C)) \<subseteq> fst ` set (own_props d) \<union> set (current_keys C)"
proof (induction C arbitrary: d)
  case Nil
  then show ?case by simp
next
  case (Cons i C)
  from own_keys_save_step [of d i] Cons [of "save_step d i"] show ?case
    unfolding current_keys_Cons foldl_Cons by blast
qed








lemma keys_saveCurrentState: "fst ` set (saveCurrentState data) \<subseteq> set (current_keys data)"
  using own_keys_foldl [of empty_dict data] by (simp add: saveCurrentState_def empty_dict_def)

lemma foldl_save_filter:
  "foldl save_step s (filter has_id data) = foldl save_step s data"
  by (induction data arbitrary: s) (auto simp: save_step_def)

lemma detect_item_no_id: "\<not> has_id item \<Longrightarrow> detect_item P st item = st"
  by (simp add: detect_item_def split: prod.splits)

lemma foldl_detect_filter:
  "foldl (detect_item P) st (filter has_id C) = foldl (detect_item P) st C"
  by (induction C arbitrary: st) (auto simp: detect_item_no_id)

section \<open>Classification of identifiers\<close>








section \<open>The normalisation law\<close>

lemma norm_empty_like: "empty_like v \<Longrightarrow> norm v = []"
  by (auto simp: empty_like_def norm_def)

lemma norm_JUndefined: "norm JUndefined = []"
  by (simp add: norm_def)

lemma norm_JStr: "norm (JStr s) = s"
  by (simp add: norm_def)

lemma norm_stringified: "v \<noteq> JNull \<Longrightarrow> v \<noteq> JUndefined \<Longrightarrow> norm (JStr (js_String v)) = norm v"
  by (simp add: norm_def)

lemma get_absent: "f \<notin> fst ` set r \<Longrightarrow> get r f = JUndefined"
proof -
  assume "f \<notin> fst ` set r"
  then have "map_of r f = None" using map_of_None_iff [of r f] by simp
  then show ?thesis by (simp add: get_def)
qed

lemma modifies_single:
  "has_id item \<Longrightarrow> map_of P (item_key item) = Some previous \<Longrightarrow> same_monitored previous item \<Longrightarrow>
     modifies (detectChanges now P [item]) = []"
  using lookup_previous_own [of P "item_key item" previous]
  by (simp add: detectChanges_closed modified_of_simps(3))

text \<open>
  Claim C3. In the field comparison, \<open>null\<close>, \<open>undefined\<close> (also a property that the
  record does not have) and the empty string are mutually equal, and a value and its
  string form (the number \<open>100\<close> and the string \<open>"100"\<close>) are equal after
  normalisation: none of these pairs produces a modification on the field, and a record
  whose monitored fields differ from the stored ones only in this way produces no entry
  in \<open>modifies\<close>.
\<close>

theorem normalisation_law:
  "(empty_like (get previous f) \<and> empty_like (get item f) \<longrightarrow> compare_field previous item f = []) \<and>
   (f \<notin> fst ` set previous \<and> empty_like (get item f) \<longrightarrow> compare_field previous item f = []) \<and>
   (get previous f \<noteq> JNull \<and> get previous f \<noteq> JUndefined \<and>
      get item f = JStr (js_String (get previous f)) \<longrightarrow> compare_field previous item f = []) \<and>
   (get item f \<noteq> JNull \<and> get item f \<noteq> JUndefined \<and>
      get previous f = JStr (js_String (get item f)) \<longrightarrow> compare_field previous item f = []) \<and>
   compare_field [(f, JNull)] [(f, JStr [])] f = [] \<and>
   compare_field [(f, JNum 100)] [(f, JStr ''100'')] f = [] \<and>
   (has_id item \<and> map_of P (item_key item) = Some previous \<and>
      same_monitored previous item \<longrightarrow>
      modifies (detectChanges now P [item]) = [])"
proof -
  have n100: "norm (JNum 100) = ''100''" by code_simp
  have c1: "compare_field [(f, JNull)] [(f, JStr [])] f = []"
    by (simp add: compare_field_empty get_def norm_def)
  have c2: "compare_field [(f, JNum 100)] [(f, JStr ''100'')] f = []"
    by (simp add: compare_field_empty get_def n100 norm_JStr)
  show ?thesis
    using c1 c2 modifies_single [of item P previous now]
    by (auto simp: compare_field_empty norm_empty_like norm_stringified get_absent same_monitored_def
        norm_JUndefined)
qed

theorem normalisation_law_witness:
  "empty_like (get example_old ''siret'') \<and> empty_like (get example_new ''siret'') \<and>
   same_monitored example_old example_new \<and>
   compare_field example_old example_new ''siret'' = [] \<and>
   compare_field example_old example_new ''city'' = [] \<and>
   compare_field example_old example_new ''daily_meal_count'' = [] \<and>
   compare_field example_new example_old ''active_on_ma_cantine'' = [] \<and>
   modifies (detectChanges ''t'' [(''7'', example_old)] [example_new]) = []"
proof -
  have h1: "empty_like (get example_old ''siret'') \<and> empty_like (get example_new ''siret'')"
    by code_simp
  have h2: "''city'' \<notin> fst ` set example_old \<and> empty_like (get example_new ''city'')"
    by code_simp
  have h3: "get example_old ''daily_meal_count'' \<noteq> JNull \<and>
      get example_old ''daily_meal_count'' \<noteq> JUndefined \<and>
      get example_new ''daily_meal_count'' = JStr (js_String (get example_old ''daily_meal_count''))"
    by code_simp
  have h4: "get example_old ''active_on_ma_cantine'' \<noteq> JNull \<and>
      get example_old ''active_on_ma_cantine'' \<noteq> JUndefined \<and>
      get example_new ''active_on_ma_cantine'' = JStr (js_String (get example_old ''active_on_ma_cantine''))"
    by code_simp
  have h5: "has_id example_new \<and> map_of [(''7'', example_old)] (item_key example_new) = Some example_old \<and>
      same_monitored example_old example_new"
    by code_simp
  have r1: "compare_field example_old example_new ''siret'' = []"
    using h1 normalisation_law [of example_old "''siret''" example_new] by blast
  have r2: "compare_field example_old example_new ''city'' = []"
    using h2 normalisation_law [of example_old "''city''" example_new] by blast
  have r3: "compare_field example_old example_new ''daily_meal_count'' = []"
    using h3 normalisation_law [of example_old "''daily_meal_count''" example_new] by blast
  have r4: "compare_field example_new example_old ''active_on_ma_cantine'' = []"
    using h4 normalisation_law [of example_new "''active_on_ma_cantine''" example_old] by blast
  have r5: "modifies (detectChanges ''t'' [(''7'', example_old)] [example_new]) = []"
    using h5 normalisation_law [of example_old _ example_new "[(''7'', example_old)]" "''t''"]
    by blast
  from h1 h5 r1 r2 r3 r4 r5 show ?thesis by simp
qed

section \<open>The invariant of a change set\<close>





section \<open>Records without an identifier\<close>

lemma detectChanges_filter:
  "detectChanges now P (filter has_id C) = detectChanges now P C"
proof -
  have "current_keys (filter has_id C) = current_keys C" by (simp add: current_keys_def)
  then show ?thesis by (simp add: detectChanges_def foldl_detect_filter)
qed

lemma saveCurrentState_filter: "saveCurrentState (filter has_id data) = saveCurrentState data"
  by (simp add: saveCurrentState_def foldl_save_filter)

lemma stored_has_id: "(k, r) \<in> set (saveCurrentState data) \<Longrightarrow> has_id r"
  using wf_saveCurrentState [of data] by (auto simp: wf_snapshot_def)

lemma nouveaux_has_id:
  "e \<in> set (nouveaux (detectChanges now P C)) \<Longrightarrow> has_id (etablissement e)"
  by (auto simp: detectChanges_closed new_entry_def)

lemma set_modified_of_etab:
  assumes "e \<in> set (modified_of P i)"
  shows "etablissement e = i \<and> has_id i"
proof (cases "lookup_previous P (item_key i)")
  case None
  with assms show ?thesis by (simp add: modified_of_simps(2))
next
  case (Some previous)
  show ?thesis
  proof (cases "has_id i \<and> \<not> same_monitored previous i")
    case True
    with assms Some have "e = modified_entry previous i (compare_fields previous i)"
      by (simp add: modified_of_simps(4))
    with True show ?thesis by (simp add: modified_entry_def)
  next
    case False
    then have "modified_of P i = []"
      using Some modified_of_simps(1) [of i P] modified_of_simps(3) [of P i previous] by blast
    with assms show ?thesis by simp
  qed
qed

lemma modifies_has_id:
  "e \<in> set (modifies (detectChanges now P C)) \<Longrightarrow> has_id (etablissement e)"
  by (auto simp: detectChanges_closed dest: set_modified_of_etab)

lemma set_removed_of_etab:
  assumes "e \<in> set (removed_of P C k)"
  shows "(k, etablissement e) \<in> set P"
proof (cases "map_of P k")
  case None
  with assms show ?thesis by (simp add: removed_of_simps(2))
next
  case (Some item)
  show ?thesis
  proof (cases "dict_truthy (current_index C) k")
    case True
    with assms show ?thesis by (simp add: removed_of_simps(1))
  next
    case False
    with assms Some have "e = removed_entry k item" by (simp add: removed_of_simps(3))
    with Some show ?thesis by (simp add: removed_entry_def map_of_SomeD)
  qed
qed

lemma supprimes_from_previous:
  "e \<in> set (supprimes (detectChanges now P C)) \<Longrightarrow> etablissement e \<in> snd ` set P"
  by (force simp: detectChanges_closed dest: set_removed_of_etab)

text \<open>
  Claim C8. A record without an identifier contributes nothing: removing it from the
  current data changes neither the change set nor the saved snapshot, it is never stored
  in the indexed snapshot, and it is the record of no entry of \<open>nouveaux\<close>, \<open>modifies\<close>
  or (the previous state being a saved snapshot) \<open>supprimes\<close>.
\<close>

theorem no_identifier_excluded:
  "\<not> has_id r \<Longrightarrow>
     detectChanges now P (xs @ r # ys) = detectChanges now P (xs @ ys) \<and>
     saveCurrentState (xs @ r # ys) = saveCurrentState (xs @ ys) \<and>
     r \<notin> snd ` set (saveCurrentState data) \<and>
     r \<notin> etablissement ` set (nouveaux (detectChanges now P data)) \<and>
     r \<notin> etablissement ` set (modifies (detectChanges now P data)) \<and>
     r \<notin> etablissement ` set (supprimes (detectChanges now (saveCurrentState old) data))"
proof -
  assume r: "\<not> has_id r"
  then have f: "filter has_id (xs @ r # ys) = filter has_id (xs @ ys)" by simp
  have d: "detectChanges now P (xs @ r # ys) = detectChanges now P (xs @ ys)"
    using detectChanges_filter [of now P "xs @ r # ys"] detectChanges_filter [of now P "xs @ ys"] f
    by simp
  have s: "saveCurrentState (xs @ r # ys) = saveCurrentState (xs @ ys)"
    using saveCurrentState_filter [of "xs @ r # ys"] saveCurrentState_filter [of "xs @ ys"] f
    by simp
  have st: "\<And>d. r \<notin> snd ` set (saveCurrentState d)"
    using r stored_has_id by force
  have n: "r \<notin> etablissement ` set (nouveaux (detectChanges now P data))"
    using r nouveaux_has_id by blast
  have m: "r \<notin> etablissement ` set (modifies (detectChanges now P data))"
    using r modifies_has_id by blast
  have p: "r \<notin> etablissement ` set (supprimes (detectChanges now (saveCurrentState old) data))"
    using st [of old] supprimes_from_previous [of _ now "saveCurrentState old" data] by blast
  from d s st n m p show ?thesis by blast
qed

theorem no_identifier_excluded_witness:
  "\<not> has_id [(''name'', JStr ''no identifier'')] \<and>
   detectChanges ''t'' example_previous
       ([[(''id'', JNum 2)]] @ [(''name'', JStr ''no identifier'')] # [[(''id'', JNum 3)]]) =
     detectChanges ''t'' example_previous ([[(''id'', JNum 2)]] @ [[(''id'', JNum 3)]]) \<and>
   [(''name'', JStr ''no identifier'')] \<notin> snd ` set (saveCurrentState example_current)"
proof -
  have h: "\<not> has_id [(''name'', JStr ''no identifier'')]" by code_simp
  from no_identifier_excluded [OF h, of "''t''" example_previous
      "[[(''id'', JNum 2)]]" "[[(''id'', JNum 3)]]" example_current]
  show ?thesis using h by blast
qed

section \<open>Idempotence of the diff\<close>












section \<open>Termination of the fetch loop\<close>

lemma rate_limited_body:
  "even (calls s) \<Longrightarrow> \<exists>s'. fetch_body rate_limited s = Next s' \<and> even (calls s') \<and> hasMore s' = hasMore s"
  by (simp add: fetch_body_def retry_page_def rate_limited_def Let_def)

lemma rate_limited_never:
  assumes "fetch_loop server s = Some y"
  shows "\<not> (server = rate_limited \<and> hasMore s \<and> even (calls s))"
proof (rule fetch_loop.raw_induct
    [where P = "\<lambda>server s y. \<not> (server = rate_limited \<and> hasMore s \<and> even (calls s))", OF _ assms],
    goal_cases)
  case (1 loop srv st r)
  show ?case
  proof
    assume a: "srv = rate_limited \<and> hasMore st \<and> even (calls st)"
    then obtain s' where s': "fetch_body rate_limited st = Next s'" "even (calls s')" "hasMore s'"
      using rate_limited_body [of st] by auto
    with a 1(2) have "loop rate_limited s' = Some r" by simp
    from 1(1) [OF this] s' show False by simp
  qed
qed

lemma rate_limited_step:
  assumes "even (calls s)"
  shows "fetch_body rate_limited s =
     Next (s\<lparr>calls := calls s + 2, trace := trace s @ retry_events (currentPage s),
             allData := allData s, currentPage := currentPage s + 1\<rparr>)"
  using assms by (simp add: fetch_body_def retry_page_def rate_limited_def retry_events_def)

lemma rate_limited_iter:
  "hasMore s \<Longrightarrow> even (calls s) \<Longrightarrow>
     \<exists>s'. fetch_iter n rate_limited s = Some s' \<and> hasMore s' \<and> even (calls s') \<and>
          currentPage s' = currentPage s + n \<and> allData s' = allData s \<and> total s' = total s"
proof (induction n arbitrary: s)
  case 0
  then show ?case by simp
next
  case (Suc n)
  let ?s1 = "s\<lparr>calls := calls s + 2, trace := trace s @ retry_events (currentPage s),
             allData := allData s, currentPage := currentPage s + 1\<rparr>"
  have "hasMore ?s1" "even (calls ?s1)" using Suc.prems by simp_all
  from Suc.IH [OF this] obtain s' where "fetch_iter n rate_limited ?s1 = Some s'" "hasMore s'"
    "even (calls s')" "currentPage s' = currentPage ?s1 + n" "allData s' = allData ?s1"
    "total s' = total ?s1"
    by blast
  then show ?case using Suc.prems rate_limited_step [of s] by simp
qed

lemma body_page:
  assumes "is_page (server (calls s))"
  shows "(\<exists>s'. fetch_body server s = Break s') \<or>
         (\<exists>s'. fetch_body server s = Next s' \<and> currentPage s' = currentPage s + 1 \<and>
               currentPage s' \<le> MAX_PAGES \<and> calls s' = calls s + 1)"
proof -
  from assms obtain d t where "server (calls s) = Page d t"
    by (cases "server (calls s)") (simp_all add: is_page_def)
  then show ?thesis by (simp add: fetch_body_def Let_def)
qed

lemma fetch_loop_total_pages:
  assumes "\<forall>n. is_page (server n)"
  shows "\<exists>s'. fetch_loop server s = Some s'"
proof (induction "MAX_PAGES - currentPage s" arbitrary: s rule: less_induct)
  case less
  show ?case
  proof (cases "hasMore s")
    case False
    then show ?thesis by (simp add: fetch_loop.simps)
  next
    case True
    from assms have "is_page (server (calls s))" by simp
    from body_page [of server s, OF this] show ?thesis
    proof (elim disjE exE conjE)
      fix s' assume "fetch_body server s = Break s'"
      with True show ?thesis by (simp add: fetch_loop.simps)
    next
      fix s' assume b: "fetch_body server s = Next s'" and p: "currentPage s' = currentPage s + 1"
        "currentPage s' \<le> MAX_PAGES"
      then have "MAX_PAGES - currentPage s' < MAX_PAGES - currentPage s" by simp
      from less [OF this] obtain r where "fetch_loop server s' = Some r" by blast
      with True b show ?thesis by (simp add: fetch_loop.simps [of server s])
    qed
  qed
qed

text \<open>
  Claim C4. The claim is that the fetch loop always ends: when the accumulated records
  reach the reported total, when a page is empty, or at the limit of 1500 pages. The
  \<open>try\<close> block does all three, and the loop ends whenever no request fails
  (\<open>fetch_loop_total_pages\<close>). The \<open>catch\<close> block continues after a successful retry
  without any of the three tests, so against the server \<open>rate_limited\<close>, where every
  page is empty and the total is zero, the loop never returns: after any number \<open>n\<close>
  of passes it is still running, at page \<open>n + 1\<close>, beyond page 1500 as well.
\<close>

theorem fetch_never_returns:
  "fetchAllData rate_limited = None \<and>
   (\<forall>n. \<exists>s. fetch_iter n rate_limited fetch_init = Some s \<and> hasMore s \<and>
      currentPage s = n + 1 \<and> allData s = [] \<and> total s = 0)"
proof
  show "fetchAllData rate_limited = None"
  proof (cases "fetchAllData rate_limited")
    case None
    then show ?thesis .
  next
    case (Some y)
    then have "fetch_loop rate_limited fetch_init = Some y" by (simp add: fetchAllData_def)
    from rate_limited_never [OF this] show ?thesis by (simp add: fetch_init_def)
  qed
  show "\<forall>n. \<exists>s. fetch_iter n rate_limited fetch_init = Some s \<and> hasMore s \<and>
      currentPage s = n + 1 \<and> allData s = [] \<and> total s = 0"
  proof
    fix n
    have "hasMore fetch_init" "even (calls fetch_init)" by (simp_all add: fetch_init_def)
    from rate_limited_iter [OF this, of n] show "\<exists>s. fetch_iter n rate_limited fetch_init = Some s \<and>
        hasMore s \<and> currentPage s = n + 1 \<and> allData s = [] \<and> total s = 0"
      by (auto simp: fetch_init_def)
  qed
qed

section \<open>Failure of a page\<close>

lemma loop_unroll:
  "fetch_iter n server s = Some s' \<Longrightarrow> fetch_loop server s = fetch_loop server s'"
proof (induction n arbitrary: s)
  case 0
  then show ?case by simp
next
  case (Suc n)
  from Suc.prems have h: "hasMore s" by (simp split: if_splits)
  with Suc.prems obtain s1 where b: "fetch_body server s = Next s1" and i: "fetch_iter n server s1 = Some s'"
    by (cases "fetch_body server s") simp_all
  from h b have "fetch_loop server s = fetch_loop server s1" by (simp add: fetch_loop.simps [of server s])
  with Suc.IH [OF i] show ?case by simp
qed

lemma body_failure:
  assumes "is_failure (server (calls s))"
  shows "fetch_body server s = retry_page server s"
  using assms by (cases "server (calls s)") (simp_all add: fetch_body_def is_failure_def is_page_def)

lemma retry_page_failure:
  assumes "is_failure (server (calls s + 1))"
  shows "retry_page server s =
     Break (s\<lparr>calls := calls s + 2, trace := trace s @ retry_events (currentPage s)\<rparr>)"
  using assms
  by (cases "server (calls s + 1)") (simp_all add: retry_page_def is_failure_def is_page_def retry_events_def)

lemma retry_page_shape:
  "trace (state_of (retry_page server s)) = trace s @ retry_events (currentPage s) \<and>
   calls (state_of (retry_page server s)) = calls s + 2 \<and>
   prefix (allData s) (allData (state_of (retry_page server s)))"
  by (cases "server (calls s + 1)") (simp_all add: retry_page_def state_of_def retry_events_def)



lemma fetch_loop_Break:
  "hasMore s \<Longrightarrow> fetch_body server s = Break s' \<Longrightarrow> fetch_loop server s = Some s'"
  by (simp add: fetch_loop.simps [of server s])

lemma fetch_loop_Next:
  "hasMore s \<Longrightarrow> fetch_body server s = Next s' \<Longrightarrow> fetch_loop server s = fetch_loop server s'"
  by (simp add: fetch_loop.simps [of server s])

lemma double_failure_returns:
  assumes i: "fetch_iter n server fetch_init = Some s" and h: "hasMore s"
    and f1: "is_failure (server (calls s))" and f2: "is_failure (server (calls s + 1))"
  shows "fetchAllData server =
        Some (s\<lparr>calls := calls s + 2, trace := trace s @ retry_events (currentPage s)\<rparr>)"
proof -
  have "fetchAllData server = fetch_loop server s"
    using loop_unroll [OF i] by (simp add: fetchAllData_def)
  also have "\<dots> = Some (s\<lparr>calls := calls s + 2, trace := trace s @ retry_events (currentPage s)\<rparr>)"
    using h body_failure [of server s, OF f1] retry_page_failure [of server s, OF f2]
    by (simp add: fetch_loop_Break)
  finally show ?thesis .
qed


lemma failing_server_simps:
  "failing_server 0 = Page [[(''id'', JNum 1)], [(''id'', JNum 2)]] 120"
  "failing_server (Suc 0) = BadStatus 503"
  "failing_server (Suc (Suc 0)) = NetworkError"
  by (simp_all add: failing_server_def)

lemma failing_server_run:
  "fetch_iter 1 failing_server fetch_init = Some after_first_page"
  "hasMore after_first_page"
  "is_failure (failing_server (calls after_first_page))"
  "is_failure (failing_server (calls after_first_page + 1))"
  by (simp_all add: fetch_init_def fetch_body_def failing_server_simps Let_def MAX_PAGES_def
      after_first_page_def is_failure_def is_page_def)


section \<open>The state file\<close>

lemma retry_page_events:
  "\<exists>es. trace (state_of (retry_page server s)) = trace s @ es \<and> list_all is_fetch_event es"
  using retry_page_shape [of server s] by (simp add: retry_events_def is_fetch_event_def)

lemma body_events:
  "\<exists>es. trace (state_of (fetch_body server s)) = trace s @ es \<and> list_all is_fetch_event es"
proof (cases "is_failure (server (calls s))")
  case True
  then show ?thesis using retry_page_events [of server s] by (simp add: body_failure)
next
  case False
  then obtain d t where "server (calls s) = Page d t"
    by (cases "server (calls s)") (simp_all add: is_failure_def is_page_def)
  then show ?thesis by (simp add: fetch_body_def Let_def state_of_def is_fetch_event_def)
qed

lemma fetch_loop_events:
  assumes "fetch_loop server s = Some r"
  shows "list_all is_fetch_event (trace s) \<longrightarrow> list_all is_fetch_event (trace r)"
proof (rule fetch_loop.raw_induct
    [where P = "\<lambda>server s r. list_all is_fetch_event (trace s) \<longrightarrow> list_all is_fetch_event (trace r)",
      OF _ assms], goal_cases)
  case (1 loop srv st r)
  show ?case
  proof (cases "hasMore st")
    case False
    with 1(2) show ?thesis by simp
  next
    case True
    from body_events [of srv st] obtain es
      where es: "trace (state_of (fetch_body srv st)) = trace st @ es" "list_all is_fetch_event es"
      by blast
    show ?thesis
    proof (cases "fetch_body srv st")
      case (Break s')
      with True 1(2) have "r = s'" by simp
      with Break es show ?thesis by (simp add: state_of_def)
    next
      case (Next s')
      with True 1(2) have "loop srv s' = Some r" by simp
      from 1(1) [OF this] Next es show ?thesis by (simp add: state_of_def)
    qed
  qed
qed

lemma fetchAllData_events:
  "fetchAllData server = Some r \<Longrightarrow> list_all is_fetch_event (trace r)"
  using fetch_loop_events [of server fetch_init r] by (simp add: fetchAllData_def fetch_init_def)

text \<open>
  Claim C6, amended. In every run that ends, the fetch has returned before anything else
  happens: the effects of the run are those of the fetch, none of which is a write,
  followed by at most one write of the state file. When no record was fetched the run
  stops with exit code 1, the state file is what it was and nothing is written.
  Otherwise the file holds the index of all the records that the fetch returned,
  whether the pagination was completed or aborted after a failed retry.
\<close>

theorem baseline_overwritten_after_fetch_amended:
  "main server now file = Some r \<Longrightarrow>
     (\<exists>fetched. fetchAllData server = Some fetched \<and>
        list_all is_fetch_event (trace fetched) \<and>
        (if allData fetched = []
         then outcome r = Exit_no_data \<and> exit_code (outcome r) = Some 1 \<and>
              state_file r = file \<and> events r = trace fetched
         else outcome r \<noteq> Exit_no_data \<and>
              state_file r = Stored (saveCurrentState (allData fetched)) \<and>
              events r = trace fetched @ [Write_state]))"
proof -
  assume m: "main server now file = Some r"
  then obtain fetched where f: "fetchAllData server = Some fetched"
    by (cases "fetchAllData server") (simp_all add: main_def Let_def)
  have ev: "list_all is_fetch_event (trace fetched)" using f by (rule fetchAllData_events)
  show ?thesis
  proof (cases "allData fetched = []")
    case True
    with m f have "r = \<lparr>outcome = Exit_no_data, state_file = file, events = trace fetched\<rparr>"
      by (simp add: main_def Let_def)
    with True f ev show ?thesis by (simp add: exit_code_def)
  next
    case False
    with m f have "outcome r \<noteq> Exit_no_data \<and>
        state_file r = Stored (saveCurrentState (allData fetched)) \<and>
        events r = trace fetched @ [Write_state]"
      by (auto simp: main_def Let_def split: if_splits)
    with False f ev show ?thesis by simp
  qed
qed

lemma down_server_fetch:
  "fetchAllData down_server = Some (fetch_init\<lparr>calls := 2, trace := [Fetch 1, Sleep 2000, Fetch 1]\<rparr>)"
proof -
  have "fetch_iter 0 down_server fetch_init = Some fetch_init" by simp
  moreover have "hasMore fetch_init" by (simp add: fetch_init_def)
  moreover have "is_failure (down_server (calls fetch_init))" "is_failure (down_server (calls fetch_init + 1))"
    by (simp_all add: down_server_def is_failure_def is_page_def)
  ultimately show ?thesis
    using double_failure_returns [of 0 down_server fetch_init]
    by (simp add: fetch_init_def retry_events_def)
qed

lemma failing_server_fetch:
  "fetchAllData failing_server =
     Some (after_first_page\<lparr>calls := 3, trace := [Fetch 1, Sleep 50, Fetch 2, Sleep 2000, Fetch 2]\<rparr>)"
  using double_failure_returns [OF failing_server_run]
  by (simp add: after_first_page_def retry_events_def)

lemma main_down_server: "main down_server ''t'' (Stored example_previous) = Some aborted_run"
  by (simp add: main_def Let_def down_server_fetch fetch_init_def aborted_run_def)

lemma main_failing_server: "main failing_server ''t'' (Stored example_previous) = Some partial_run"
  by (simp add: main_def Let_def failing_server_fetch after_first_page_def partial_run_def
      loadPreviousData_def example_previous_def)

theorem baseline_overwritten_after_fetch_amended_witness:
  "main down_server ''t'' (Stored example_previous) = Some aborted_run \<and>
   state_file aborted_run = Stored example_previous \<and>
   exit_code (outcome aborted_run) = Some 1 \<and>
   main failing_server ''t'' (Stored example_previous) = Some partial_run \<and>
   events partial_run = [Fetch 1, Sleep 50, Fetch 2, Sleep 2000, Fetch 2] @ [Write_state]"
proof -
  from baseline_overwritten_after_fetch_amended [OF main_down_server]
  have a: "state_file aborted_run = Stored example_previous \<and> exit_code (outcome aborted_run) = Some 1"
    by (auto simp: down_server_fetch fetch_init_def split: if_splits)
  from baseline_overwritten_after_fetch_amended [OF main_failing_server]
  have b: "events partial_run = [Fetch 1, Sleep 50, Fetch 2, Sleep 2000, Fetch 2] @ [Write_state]"
    by (auto simp: failing_server_fetch after_first_page_def split: if_splits)
  from a b main_down_server main_failing_server show ?thesis by simp
qed

text \<open>
  Claim C6 as stated fails when the pagination is aborted: against \<open>failing_server\<close>
  the fetch ends after a failed retry with 2 of the 120 records reported, in none of the
  three ways in which a fetch completes, and the index of these 2 records replaces the
  previous baseline.
\<close>

theorem baseline_overwritten_counterexample:
  "fetchAllData failing_server = Some truncated_fetch \<and>
   \<not> fetch_completed truncated_fetch \<and>
   int (length (allData truncated_fetch)) < total truncated_fetch \<and>
   main failing_server ''t'' (Stored example_previous) = Some partial_run \<and>
   state_file partial_run = Stored (saveCurrentState (allData truncated_fetch)) \<and>
   state_file partial_run \<noteq> Stored example_previous"
proof -
  have f: "fetchAllData failing_server = Some truncated_fetch"
    by (simp add: failing_server_fetch truncated_fetch_def)
  have c: "\<not> fetch_completed truncated_fetch"
    by (simp add: fetch_completed_def truncated_fetch_def after_first_page_def MAX_PAGES_def)
  have t: "int (length (allData truncated_fetch)) < total truncated_fetch"
    by (simp add: truncated_fetch_def after_first_page_def)
  have s: "state_file partial_run = Stored (saveCurrentState (allData truncated_fetch))"
    by (simp add: partial_run_def truncated_fetch_def after_first_page_def)
  have e: "saveCurrentState [[(''id'', JNum 1)], [(''id'', JNum 2)]] \<noteq> example_previous"
    by code_simp
  then have n: "state_file partial_run \<noteq> Stored example_previous"
    by (simp add: partial_run_def)
  from f c t main_failing_server s n show ?thesis by simp
qed

section \<open>Properties of the scope filter\<close>

lemma js_includes_scope_tokens: "js_includes (scope_tokens tokens) v = is_scope_token tokens v"
  by (auto simp: js_includes_def scope_tokens_def is_scope_token_def)

lemma well_shaped_detectChanges: "well_shaped (detectChanges now P C)"
proof -
  have "\<And>k. list_all (\<lambda>e. ancienMinistere e = None) (removed_of P C k)"
    by (simp add: removed_of_def removed_entry_def split: option.splits)
  then show ?thesis
    by (simp add: well_shaped_def detectChanges_closed list_all_iff new_entry_def)
qed

lemma filterItem_current:
  "ancienMinistere e = None \<Longrightarrow> filterItem (scope_tokens tokens) e = retained_spec tokens e"
  by (simp add: filterItem_def js_includes_scope_tokens retained_spec_def prop_ancienMinistere_def)

lemma truthy_token: "is_scope_token tokens a \<Longrightarrow> truthy a = (a \<noteq> JStr [])"
  by (auto simp: is_scope_token_def)

lemma filterItem_modified:
  "filterItem (scope_tokens tokens) e = retained_modified tokens e"
  by (auto simp: filterItem_def js_includes_scope_tokens retained_modified_def prop_ancienMinistere_def
      truthy_token is_scope_token_def split: option.splits)

lemma filter_cong_all:
  "list_all (\<lambda>e. ancienMinistere e = None) es \<Longrightarrow>
     filter (filterItem (scope_tokens tokens)) es = filter (retained_spec tokens) es"
  by (rule filter_cong) (simp_all add: list_all_iff filterItem_current)

text \<open>
  Claim C2, amended. With \<open>ALL\<close> among the scope tokens the change set is returned
  unchanged. Otherwise each output sequence is the input sequence restricted, in order,
  to the entries whose current supervising authority or current region is a scope
  token or, for modified entries only, whose previous supervising authority is not the
  empty string and is a scope token.
\<close>

theorem scope_filter_amended:
  "(''ALL'' \<in> set tokens \<longrightarrow> filterChangesForSubscriber ch (scope_tokens tokens) = ch) \<and>
   (''ALL'' \<notin> set tokens \<and> well_shaped ch \<longrightarrow>
      nouveaux (filterChangesForSubscriber ch (scope_tokens tokens)) =
        filter (retained_spec tokens) (nouveaux ch) \<and>
      modifies (filterChangesForSubscriber ch (scope_tokens tokens)) =
        filter (retained_modified tokens) (modifies ch) \<and>
      supprimes (filterChangesForSubscriber ch (scope_tokens tokens)) =
        filter (retained_spec tokens) (supprimes ch) \<and>
      subseq (nouveaux (filterChangesForSubscriber ch (scope_tokens tokens))) (nouveaux ch) \<and>
      subseq (modifies (filterChangesForSubscriber ch (scope_tokens tokens))) (modifies ch) \<and>
      subseq (supprimes (filterChangesForSubscriber ch (scope_tokens tokens))) (supprimes ch))"
proof -
  have all: "''ALL'' \<in> set tokens \<Longrightarrow> filterChangesForSubscriber ch (scope_tokens tokens) = ch"
    by (simp add: filterChangesForSubscriber_def js_includes_scope_tokens is_scope_token_def)
  have m: "filter (filterItem (scope_tokens tokens)) (modifies ch) =
      filter (retained_modified tokens) (modifies ch)"
    by (simp add: filterItem_modified [abs_def])
  have sel: "''ALL'' \<notin> set tokens \<Longrightarrow>
      filterChangesForSubscriber ch (scope_tokens tokens) =
        \<lparr>nouveaux = filter (filterItem (scope_tokens tokens)) (nouveaux ch),
         modifies = filter (filterItem (scope_tokens tokens)) (modifies ch),
         supprimes = filter (filterItem (scope_tokens tokens)) (supprimes ch),
         timestamp = timestamp ch\<rparr>"
    by (simp add: filterChangesForSubscriber_def js_includes_scope_tokens is_scope_token_def)
  show ?thesis
    using all sel m filter_cong_all [of "nouveaux ch" tokens] filter_cong_all [of "supprimes ch" tokens]
    by (auto simp: well_shaped_def)
qed

theorem scope_filter_amended_witness:
  "''ALL'' \<notin> set [''Justice''] \<and> well_shaped scope_changes \<and>
   map id_val (nouveaux scope_changes) = [JNum 3, JNum 4] \<and>
   map id_val (nouveaux (filterChangesForSubscriber scope_changes (scope_tokens [''Justice'']))) = [JNum 4] \<and>
   map id_val (modifies (filterChangesForSubscriber scope_changes (scope_tokens [''Justice'']))) = [JNum 1] \<and>
   supprimes (filterChangesForSubscriber scope_changes (scope_tokens [''Justice''])) = [] \<and>
   ''ALL'' \<in> set [''ALL''] \<and>
   filterChangesForSubscriber scope_changes (scope_tokens [''ALL'']) = scope_changes"
proof -
  have h1: "''ALL'' \<notin> set [''Justice'']" by simp
  have h2: "well_shaped scope_changes" by (simp add: scope_changes_def well_shaped_detectChanges)
  have h3: "''ALL'' \<in> set [''ALL'']" by simp
  have e0: "map id_val (nouveaux scope_changes) = [JNum 3, JNum 4]" by code_simp
  have e1: "map id_val (filter (retained_spec [''Justice'']) (nouveaux scope_changes)) = [JNum 4]"
    by code_simp
  have e2: "map id_val (filter (retained_modified [''Justice'']) (modifies scope_changes)) = [JNum 1]"
    by code_simp
  have e3: "filter (retained_spec [''Justice'']) (supprimes scope_changes) = []"
    by code_simp
  from scope_filter_amended [of "[''Justice'']" scope_changes] h1 h2
  have "nouveaux (filterChangesForSubscriber scope_changes (scope_tokens [''Justice''])) =
        filter (retained_spec [''Justice'']) (nouveaux scope_changes)"
    and "modifies (filterChangesForSubscriber scope_changes (scope_tokens [''Justice''])) =
        filter (retained_modified [''Justice'']) (modifies scope_changes)"
    and "supprimes (filterChangesForSubscriber scope_changes (scope_tokens [''Justice''])) =
        filter (retained_spec [''Justice'']) (supprimes scope_changes)"
    by blast+
  moreover from scope_filter_amended [of "[''ALL'']" scope_changes] h3
  have "filterChangesForSubscriber scope_changes (scope_tokens [''ALL'']) = scope_changes"
    by blast
  ultimately show ?thesis using h1 h2 h3 e0 e1 e2 e3 by simp
qed

text \<open>
  Claim C2 as stated fails when the empty string is a scope token: the institution of
  \<open>attached_changes\<close> had the empty string as its supervising authority, which is a
  scope token, and its modified entry is not retained, because the test
  \<open>item.ancienMinistere && ...\<close> is false on an empty string.
\<close>

theorem scope_filter_counterexample:
  "''ALL'' \<notin> set [[]] \<and>
   modifies attached_changes \<noteq> [] \<and>
   list_all (retained_modified_spec [[]]) (modifies attached_changes) \<and>
   modifies (filterChangesForSubscriber attached_changes (scope_tokens [[]])) = [] \<and>
   filterChangesForSubscriber attached_changes (scope_tokens [[]]) \<noteq>
     filterForScope_spec attached_changes [[]]"
  by code_simp

section \<open>The scope filter builds new objects only\<close>

lemma lookup_append: "a < length h \<Longrightarrow> lookup (h @ h') a = lookup h a"
  by (simp add: lookup_def nth_append)

lemma lookup_new: "lookup (h @ [obj]) (length h) = Some obj"
  by (simp add: lookup_def)

lemma lookup_less: "lookup h a = Some obj \<Longrightarrow> a < length h"
  by (simp add: lookup_def split: if_splits)

lemma entry_at_less: "entry_at h a = Some e \<Longrightarrow> a < length h"
  by (auto simp: entry_at_def dest: lookup_less split: option.splits hobj.splits)

lemma entry_at_append: "entry_at h a = Some e \<Longrightarrow> entry_at (h @ h') a = Some e"
  using entry_at_less [of h a e] by (simp add: entry_at_def lookup_append)

lemma read_entries_refs: "read_entries h refs = Some items \<Longrightarrow> map fst items = refs"
  by (induction refs arbitrary: items) (auto split: option.splits)

lemma read_entries_append:
  "read_entries h refs = Some items \<Longrightarrow> read_entries (h @ h') refs = Some items"
proof (induction refs arbitrary: items)
  case Nil
  then show ?case by simp
next
  case (Cons r rs)
  from Cons.prems obtain e es where e: "entry_at h r = Some e" and es: "read_entries h rs = Some es"
    and i: "items = (r, e) # es"
    by (auto split: option.splits)
  from entry_at_append [OF e] Cons.IH [OF es] i show ?case by simp
qed

lemma read_entries_filter:
  "read_entries h refs = Some items \<Longrightarrow>
     read_entries h (filter_refs perimetres items) =
       Some (filter (\<lambda>(r, item). filterItem perimetres item) items)"
proof (induction refs arbitrary: items)
  case Nil
  then show ?case by (simp add: filter_refs_def)
next
  case (Cons r rs)
  from Cons.prems obtain e es where e: "entry_at h r = Some e" and es: "read_entries h rs = Some es"
    and i: "items = (r, e) # es"
    by (auto split: option.splits)
  from Cons.IH [OF es] e i show ?case by (simp add: filter_refs_def)
qed

lemma entries_at_refs: "entries_at h a = Some items \<Longrightarrow> refs_at h a = map fst items"
  by (auto simp: entries_at_def refs_at_def read_entries_refs split: option.splits hobj.splits)

lemma subseq_filter_refs: "subseq (filter_refs perimetres items) (map fst items)"
  unfolding filter_refs_def by (rule subseq_map) simp

lemma entries_at_old:
  assumes "entries_at h a = Some items"
  shows "entries_at (h @ h') a = Some items"
proof -
  from assms obtain refs where l: "lookup h a = Some (HArray refs)" and r: "read_entries h refs = Some items"
    by (auto simp: entries_at_def split: option.splits hobj.splits)
  from l have "lookup (h @ h') a = Some (HArray refs)"
    using lookup_less [OF l] by (simp add: lookup_append)
  with read_entries_append [OF r] show ?thesis by (simp add: entries_at_def)
qed

lemma entries_at_new:
  assumes "read_entries h refs = Some items" "a = length h"
  shows "entries_at (h @ HArray refs # h') a = Some items"
proof -
  have "lookup (h @ HArray refs # h') a = Some (HArray refs)"
    using assms(2) by (simp add: lookup_def nth_append)
  with read_entries_append [OF assms(1), of "HArray refs # h'"] show ?thesis
    by (simp add: entries_at_def)
qed

lemma heap_filter_result:
  assumes t: "tokens_at h p = Some perimetres" and na: "\<not> js_includes perimetres (JStr ''ALL'')"
    and c: "lookup h c = Some (HChanges n m s ts)"
    and en: "entries_at h n = Some ns" and em: "entries_at h m = Some ms" and es: "entries_at h s = Some ss"
  shows "filterChangesForSubscriber_heap h c p =
     Some (length h + 3,
           h @ [HArray (filter_refs perimetres ns), HArray (filter_refs perimetres ms),
                HArray (filter_refs perimetres ss),
                HChanges (length h) (length h + 1) (length h + 2) ts])"
  using assms by (simp add: filterChangesForSubscriber_heap_def alloc_def)

lemma filter_snd:
  "map snd (filter (\<lambda>(r, item). filterItem perimetres item) items) =
     filter (filterItem perimetres) (map snd items)"
  by (induction items) auto

text \<open>
  Claim C10. Without \<open>ALL\<close> among the tokens, the call returns a new change set and
  a store that extends the one it was given: every object that existed (the entries,
  the input arrays, the input change set, the token array) is what it was. The three
  new arrays hold references of the corresponding input arrays, in order, so the
  entries are the same objects; read as values they are the filtered sequences, and the
  timestamp is the one of the input.
\<close>

theorem scope_filter_frame:
  "tokens_at h p = Some perimetres \<and> \<not> js_includes perimetres (JStr ''ALL'') \<and>
   changes_at h c = Some ch \<and> sequences_at h c = Some (ns, ms, ss, ts) \<longrightarrow>
     (\<exists>c' h'. filterChangesForSubscriber_heap h c p = Some (c', h') \<and>
        take (length h) h' = h \<and>
        (\<exists>ns' ms' ss'. sequences_at h' c' = Some (ns', ms', ss', ts) \<and>
            subseq ns' ns \<and> subseq ms' ms \<and> subseq ss' ss) \<and>
        changes_at h' c' = Some (filterChangesForSubscriber ch perimetres) \<and>
        timestamp (filterChangesForSubscriber ch perimetres) = timestamp ch \<and>
        changes_at h' c = Some ch \<and> tokens_at h' p = Some perimetres)"
proof (intro impI, elim conjE)
  assume t: "tokens_at h p = Some perimetres" and na: "\<not> js_includes perimetres (JStr ''ALL'')"
    and ca: "changes_at h c = Some ch" and sa: "sequences_at h c = Some (ns, ms, ss, ts)"
  from ca obtain n m s ts0 where c: "lookup h c = Some (HChanges n m s ts0)"
    by (auto simp: changes_at_def split: option.splits hobj.splits)
  with sa have ts0: "ts0 = ts" and seqs: "ns = refs_at h n" "ms = refs_at h m" "ss = refs_at h s"
    by (simp_all add: sequences_at_def)
  from ca c obtain ins ims iss where en: "entries_at h n = Some ins" and em: "entries_at h m = Some ims"
    and es: "entries_at h s = Some iss"
    and ch: "ch = \<lparr>nouveaux = map snd ins, modifies = map snd ims, supprimes = map snd iss, timestamp = ts0\<rparr>"
    by (auto simp: changes_at_def split: option.splits)
  let ?n' = "filter_refs perimetres ins" and ?m' = "filter_refs perimetres ims"
    and ?s' = "filter_refs perimetres iss"
  let ?new = "[HArray ?n', HArray ?m', HArray ?s', HChanges (length h) (length h + 1) (length h + 2) ts0]"
  let ?h' = "h @ ?new"
  let ?c' = "length h + 3"
  have res: "filterChangesForSubscriber_heap h c p = Some (?c', ?h')"
    using t na c en em es by (rule heap_filter_result)
  have frame: "take (length h) ?h' = h" by simp
  have rn: "read_entries h (refs_at h n) = Some ins"
    using en by (auto simp: entries_at_def refs_at_def split: option.splits hobj.splits)
  have rm: "read_entries h (refs_at h m) = Some ims"
    using em by (auto simp: entries_at_def refs_at_def split: option.splits hobj.splits)
  have rs: "read_entries h (refs_at h s) = Some iss"
    using es by (auto simp: entries_at_def refs_at_def split: option.splits hobj.splits)
  have lc': "lookup ?h' ?c' = Some (HChanges (length h) (length h + 1) (length h + 2) ts0)"
    by (simp add: lookup_def nth_append)
  have l0: "lookup ?h' (length h) = Some (HArray ?n')"
    and l1: "lookup ?h' (length h + 1) = Some (HArray ?m')"
    and l2: "lookup ?h' (length h + 2) = Some (HArray ?s')"
    by (simp_all add: lookup_def nth_append)
  have "sequences_at ?h' ?c' = Some (?n', ?m', ?s', ts0)"
    by (simp only: sequences_at_def lc' refs_at_def l0 l1 l2 option.case hobj.case)
  then have seq': "sequences_at ?h' ?c' = Some (?n', ?m', ?s', ts)"
    by (simp only: ts0)
  have sub: "subseq ?n' ns" "subseq ?m' ms" "subseq ?s' ss"
    using subseq_filter_refs [of perimetres ins] subseq_filter_refs [of perimetres ims]
      subseq_filter_refs [of perimetres iss] entries_at_refs [OF en] entries_at_refs [OF em]
      entries_at_refs [OF es] seqs
    by simp_all
  have e0: "entries_at ?h' (length h) = Some (filter (\<lambda>(r, item). filterItem perimetres item) ins)"
    using read_entries_append [OF read_entries_filter [OF rn, of perimetres], of ?new]
    by (simp only: entries_at_def l0 option.case hobj.case)
  have e1: "entries_at ?h' (length h + 1) = Some (filter (\<lambda>(r, item). filterItem perimetres item) ims)"
    using read_entries_append [OF read_entries_filter [OF rm, of perimetres], of ?new]
    by (simp only: entries_at_def l1 option.case hobj.case)
  have e2: "entries_at ?h' (length h + 2) = Some (filter (\<lambda>(r, item). filterItem perimetres item) iss)"
    using read_entries_append [OF read_entries_filter [OF rs, of perimetres], of ?new]
    by (simp only: entries_at_def l2 option.case hobj.case)
  have "changes_at ?h' ?c' =
      Some \<lparr>nouveaux = map snd (filter (\<lambda>(r, item). filterItem perimetres item) ins),
            modifies = map snd (filter (\<lambda>(r, item). filterItem perimetres item) ims),
            supprimes = map snd (filter (\<lambda>(r, item). filterItem perimetres item) iss),
            timestamp = ts0\<rparr>"
    by (simp only: changes_at_def lc' e0 e1 e2 option.case hobj.case prod.case)
  then have val: "changes_at ?h' ?c' = Some (filterChangesForSubscriber ch perimetres)"
    using na by (simp add: filter_snd filterChangesForSubscriber_def ch)
  have tsv: "timestamp (filterChangesForSubscriber ch perimetres) = timestamp ch"
    by (simp add: filterChangesForSubscriber_def)
  have "lookup ?h' c = lookup h c" using lookup_less [OF c] by (rule lookup_append)
  with c have lc: "lookup ?h' c = Some (HChanges n m s ts0)" by (simp only:)
  have old: "changes_at ?h' c = Some ch"
    by (simp only: changes_at_def lc ch option.case hobj.case prod.case
        entries_at_old [OF en, of ?new] entries_at_old [OF em, of ?new] entries_at_old [OF es, of ?new])
  have tok: "tokens_at ?h' p = Some perimetres"
  proof -
    from t obtain obj where lp: "lookup h p = Some obj"
      by (auto simp: tokens_at_def split: option.splits)
    have "lookup ?h' p = lookup h p" using lookup_less [OF lp] by (rule lookup_append)
    with t show ?thesis by (simp only: tokens_at_def)
  qed
  from res frame seq' sub val tsv old tok
  show "\<exists>c' h'. filterChangesForSubscriber_heap h c p = Some (c', h') \<and>
        take (length h) h' = h \<and>
        (\<exists>ns' ms' ss'. sequences_at h' c' = Some (ns', ms', ss', ts) \<and>
            subseq ns' ns \<and> subseq ms' ms \<and> subseq ss' ss) \<and>
        changes_at h' c' = Some (filterChangesForSubscriber ch perimetres) \<and>
        timestamp (filterChangesForSubscriber ch perimetres) = timestamp ch \<and>
        changes_at h' c = Some ch \<and> tokens_at h' p = Some perimetres"
    by blast
qed

theorem scope_filter_frame_witness:
  "tokens_at example_heap 7 = Some [JStr ''Justice''] \<and>
   \<not> js_includes [JStr ''Justice''] (JStr ''ALL'') \<and>
   changes_at example_heap 6 = Some example_heap_changes \<and>
   sequences_at example_heap 6 = Some ([0, 1], [2], [], ''t'') \<and>
   (\<exists>c' h'. filterChangesForSubscriber_heap example_heap 6 7 = Some (c', h') \<and>
      take (length example_heap) h' = example_heap \<and>
      (\<exists>ns' ms' ss'. sequences_at h' c' = Some (ns', ms', ss', ''t'') \<and>
          subseq ns' [0, 1] \<and> subseq ms' [2] \<and> subseq ss' []) \<and>
      changes_at h' c' = Some (filterChangesForSubscriber example_heap_changes [JStr ''Justice'']) \<and>
      changes_at h' 6 = Some example_heap_changes \<and> tokens_at h' 7 = Some [JStr ''Justice''])"
proof -
  have h1: "tokens_at example_heap 7 = Some [JStr ''Justice'']" by code_simp
  have h2: "\<not> js_includes [JStr ''Justice''] (JStr ''ALL'')" by code_simp
  have h3: "changes_at example_heap 6 = Some example_heap_changes" by code_simp
  have h4: "sequences_at example_heap 6 = Some ([0, 1], [2], [], ''t'')" by code_simp
  from scope_filter_frame [of example_heap 7 "[JStr ''Justice'']" 6 example_heap_changes
      "[0, 1]" "[2]" "[]" "''t''"] h1 h2 h3 h4
  show ?thesis by blast
qed

end
